theory Spec2Isabelle
  imports Main "HOL-Library.Word"
begin

section \<open>Go values used by export.go\<close>

text \<open>
  Bytes are \<^typ>\<open>char\<close> (8 bits). A run-time panic of the Go program is a value of
  \<open>panic\<close>, and a function that can panic returns \<open>panic + 'a\<close>.
\<close>

datatype panic = SliceBounds | IndexRange | NilDeref

definition CR :: char where "CR = CHR 0x0D"
definition LF :: char where "LF = CHR 0x0A"
definition EQ :: char where "EQ = CHR ''=''"

text \<open>\<open>const maxLineLen = 76\<close> (export.go:206). Go's \<open>int\<close> is modelled by
  \<^typ>\<open>int\<close>: the sums of a length and a column formed here are far below \<open>2^63\<close>.\<close>

definition maxLineLen :: int where "maxLineLen = 76"

text \<open>
  A Go slice \<open>p []byte\<close> is a window on a backing array: \<open>backing\<close> holds the array
  from the first byte of the slice up to its capacity, \<open>len\<close> is \<open>len(p)\<close>, and
  \<open>cap(p)\<close> is the length of \<open>backing\<close>. Go checks \<open>p[:k]\<close> against the capacity,
  \<open>p[k:]\<close> and \<open>p[i]\<close> against the length.
\<close>

record go_slice =
  backing :: "char list"
  len :: nat

definition cap :: "go_slice \<Rightarrow> nat" where
  "cap p = length (backing p)"

definition wf_slice :: "go_slice \<Rightarrow> bool" where
  "wf_slice p = (len p \<le> cap p)"

definition bytes :: "go_slice \<Rightarrow> char list" where
  "bytes p = take (len p) (backing p)"

definition mk_slice :: "char list \<Rightarrow> go_slice" where
  "mk_slice bs = \<lparr>backing = bs, len = length bs\<rparr>"

definition slice_to :: "go_slice \<Rightarrow> int \<Rightarrow> panic + go_slice" where
  "slice_to p k =
     (if 0 \<le> k \<and> k \<le> int (cap p) then Inr (p\<lparr>len := nat k\<rparr>) else Inl SliceBounds)"

definition slice_from :: "go_slice \<Rightarrow> int \<Rightarrow> panic + go_slice" where
  "slice_from p k =
     (if 0 \<le> k \<and> k \<le> int (len p)
      then Inr \<lparr>backing = drop (nat k) (backing p), len = len p - nat k\<rparr>
      else Inl SliceBounds)"

definition index :: "go_slice \<Rightarrow> int \<Rightarrow> panic + char" where
  "index p i =
     (if 0 \<le> i \<and> i < int (len p) then Inr (backing p ! nat i) else Inl IndexRange)"

text \<open>\<open>bytes.IndexAny(s, "\n")\<close>: the index of the first line feed of \<open>s\<close>, or \<open>-1\<close>.\<close>

fun indexLF :: "char list \<Rightarrow> int" where
  "indexLF [] = - 1"
| "indexLF (c # cs) =
     (if c = LF then 0 else (let i = indexLF cs in if i = - 1 then - 1 else i + 1))"

text \<open>
  The sink \<open>w.w\<close> of a line writer is the sequence of its \<open>Write\<close> calls, in order.
  \<open>Payload\<close> is a call whose argument is a sub-slice of the caller's \<open>p\<close>;
  \<open>Inserted\<close> is a call whose argument is a constant of the writer
  (\<open>[]byte("\r\n")\<close>, or the package variable \<open>newline\<close>). \<open>flat\<close> is the byte
  stream the sink receives.
\<close>

datatype written = Payload "char list" | Inserted "char list"

fun written_bytes :: "written \<Rightarrow> char list" where
  "written_bytes (Payload bs) = bs"
| "written_bytes (Inserted bs) = bs"

definition flat :: "written list \<Rightarrow> char list" where
  "flat ws = concat (map written_bytes ws)"

definition crlf :: "char list" where "crlf = [CR, LF]"

text \<open>\<open>var newline []byte = []byte("=\r\n")\<close> (export.go:245).\<close>

definition newline :: "char list" where "newline = [EQ, CR, LF]"

section \<open>Line-wrapping encoders (export.go:204-287)\<close>

subsection \<open>base64LineWriter\<close>

text \<open>
  \<open>type base64LineWriter struct { w io.Writer; lineLen int }\<close>. Every slice expression
  of \<open>base64LineWriter.Write\<close> has the bound \<open>maxLineLen - w.lineLen\<close>, which is below
  \<open>len(p)\<close> whenever the loop body runs, so the capacity of \<open>p\<close> never matters and
  \<open>p\<close> is its list of bytes; a negative bound panics.
\<close>

record base64LineWriter =
  b64_w :: "written list"
  b64_lineLen :: int

definition newBase64LineWriter :: "written list \<Rightarrow> base64LineWriter" where
  "newBase64LineWriter w = \<lparr>b64_w = w, b64_lineLen = 0\<rparr>"

text \<open>The \<open>for\<close> loop of export.go:220-226; the state is \<open>(p, w.lineLen, n, w.w)\<close>.\<close>

function b64_loop ::
  "char list \<Rightarrow> int \<Rightarrow> int \<Rightarrow> written list \<Rightarrow> panic + (char list \<times> int \<times> int \<times> written list)"
where
  "b64_loop p lineLen n out =
     (if int (length p) + lineLen > maxLineLen then
        (if maxLineLen - lineLen < 0 then Inl SliceBounds
         else b64_loop (drop (nat (maxLineLen - lineLen)) p) 0 (n + (maxLineLen - lineLen))
                (out @ [Payload (take (nat (maxLineLen - lineLen)) p), Inserted crlf]))
      else Inr (p, lineLen, n, out))"
  by pat_completeness auto
termination
  by (relation "measure (\<lambda>(p, lineLen, n, out).
        2 * length p + (if lineLen = maxLineLen then 1 else 0))")
     (auto simp: maxLineLen_def)

declare b64_loop.simps [simp del]

definition base64_Write :: "base64LineWriter \<Rightarrow> char list \<Rightarrow> panic + (base64LineWriter \<times> int)" where
  "base64_Write w p =
     (case b64_loop p (b64_lineLen w) 0 (b64_w w) of
        Inl e \<Rightarrow> Inl e
      | Inr (p', lineLen, n, out) \<Rightarrow>
          Inr (\<lparr>b64_w = out @ [Payload p'], b64_lineLen = lineLen + int (length p')\<rparr>,
               n + int (length p')))"

text \<open>A sequence of \<open>Write\<close> calls on one writer.\<close>

fun base64_Writes :: "base64LineWriter \<Rightarrow> char list list \<Rightarrow> panic + base64LineWriter" where
  "base64_Writes w [] = Inr w"
| "base64_Writes w (p # ps) =
     (case base64_Write w p of Inl e \<Rightarrow> Inl e | Inr (w', n) \<Rightarrow> base64_Writes w' ps)"

text \<open>
  The spec's words for the base64 line wrapper: while the input overflows the line, slice
  off exactly \<open>76 - column\<close> bytes, emit them, emit CRLF and restart at column 0; the tail
  is emitted without a break.
\<close>

function spec_base64_chunks :: "nat \<Rightarrow> char list \<Rightarrow> written list" where
  "spec_base64_chunks col p =
     (if length p + col > 76
      then Payload (take (76 - col) p) # Inserted crlf # spec_base64_chunks 0 (drop (76 - col) p)
      else [Payload p])"
  by pat_completeness auto
termination
  by (relation "measure (\<lambda>(col, p). 2 * length p + (if col \<ge> 76 then 1 else 0))") auto

declare spec_base64_chunks.simps [simp del]

definition spec_base64_column :: "nat \<Rightarrow> nat \<Rightarrow> nat" where
  "spec_base64_column col k = (if col + k \<le> 76 then col + k else (col + k - 1) mod 76 + 1)"

subsection \<open>qpLineWriter\<close>

record qpLineWriter =
  qp_w :: "written list"
  qp_lineLen :: int

definition newQpLineWriter :: "written list \<Rightarrow> qpLineWriter" where
  "newQpLineWriter w = \<lparr>qp_w = w, qp_lineLen = 0\<rparr>"

text \<open>
  One iteration of the loop of export.go:249-284, for \<open>len(p) > 0\<close>. \<open>QpReturn\<close> is the
  \<open>return\<close> of line 254, \<open>QpNext\<close> the two ways to the next iteration (the \<open>continue\<close>
  of line 264 and the end of the body), \<open>QpPanic\<close> a run-time panic.
\<close>

datatype qp_step_result =
    QpReturn int int "written list"
  | QpNext go_slice int int "written list"
  | QpPanic panic

text \<open>The condition of line 259, with Go's short-circuit evaluation.\<close>

definition qp_newline_cond :: "go_slice \<Rightarrow> int \<Rightarrow> int \<Rightarrow> panic + bool" where
  "qp_newline_cond p lineLen i =
     (if i \<noteq> - 1 then
        (if i \<noteq> maxLineLen - lineLen + 1 then Inr True
         else (case index p (i - 1) of Inl e \<Rightarrow> Inl e | Inr c \<Rightarrow> Inr (c = CR)))
      else Inr False)"

text \<open>Lines 269-276: the number of bytes written before the soft line break.\<close>

definition qp_toWrite :: "go_slice \<Rightarrow> int \<Rightarrow> panic + int" where
  "qp_toWrite p lineLen =
     (case (if maxLineLen - lineLen - 2 \<ge> 0
            then (case index p (maxLineLen - lineLen - 2) of
                    Inl e \<Rightarrow> Inl e | Inr c \<Rightarrow> Inr (c = EQ))
            else Inr False) of
        Inl e \<Rightarrow> Inl e
      | Inr True \<Rightarrow> Inr (maxLineLen - lineLen - 2)
      | Inr False \<Rightarrow>
          (case index p (maxLineLen - lineLen - 1) of
             Inl e \<Rightarrow> Inl e
           | Inr c \<Rightarrow> if c = EQ then Inr (maxLineLen - lineLen - 1)
                      else Inr (maxLineLen - lineLen)))"

definition qp_step :: "go_slice \<Rightarrow> int \<Rightarrow> int \<Rightarrow> written list \<Rightarrow> qp_step_result" where
  "qp_step p lineLen n out =
     (if int (len p) < maxLineLen - lineLen
      then QpReturn (n + int (len p)) (lineLen + int (len p)) (out @ [Payload (bytes p)])
      else
        (case slice_to p (maxLineLen - lineLen + 2) of
           Inl e \<Rightarrow> QpPanic e
         | Inr s \<Rightarrow>
            (let i = indexLF (bytes s) in
             (case qp_newline_cond p lineLen i of
                Inl e \<Rightarrow> QpPanic e
              | Inr True \<Rightarrow>
                 (case slice_to p (i + 1) of
                    Inl e \<Rightarrow> QpPanic e
                  | Inr hd_p \<Rightarrow>
                     (case slice_from p (i + 1) of
                        Inl e \<Rightarrow> QpPanic e
                      | Inr p' \<Rightarrow> QpNext p' 0 (n + (i + 1)) (out @ [Payload (bytes hd_p)])))
              | Inr False \<Rightarrow>
                 (case qp_toWrite p lineLen of
                    Inl e \<Rightarrow> QpPanic e
                  | Inr toWrite \<Rightarrow>
                     (case slice_to p toWrite of
                        Inl e \<Rightarrow> QpPanic e
                      | Inr hd_p \<Rightarrow>
                         (case slice_from p toWrite of
                            Inl e \<Rightarrow> QpPanic e
                          | Inr p' \<Rightarrow>
                             QpNext p' 0 (n + toWrite)
                               (out @ [Payload (bytes hd_p), Inserted newline]))))))))"

text \<open>Every way to a next iteration consumes input or resets a non-zero column.\<close>

lemma qp_toWrite_range:
  "qp_toWrite p lineLen = Inr t \<Longrightarrow>
     maxLineLen - lineLen - 2 \<le> t \<and> t \<le> maxLineLen - lineLen \<and> 1 \<le> maxLineLen - lineLen"
  by (auto simp: qp_toWrite_def index_def split: if_splits sum.splits bool.splits)

lemma indexLF_range: "- 1 \<le> indexLF bs \<and> indexLF bs < int (length bs)"
  by (induction bs) (auto simp: Let_def)

lemma qp_step_progress:
  assumes "qp_step p lineLen n out = QpNext p' lineLen' n' out'"
  shows "lineLen' = 0 \<and> len p' \<le> len p \<and> (len p' = len p \<longrightarrow> lineLen \<noteq> 0)"
proof -
  have ge: "\<not> int (len p) < maxLineLen - lineLen"
    using assms by (auto simp: qp_step_def)
  obtain s where s: "slice_to p (maxLineLen - lineLen + 2) = Inr s"
    using assms ge by (auto simp: qp_step_def split: sum.splits)
  define i where "i = indexLF (bytes s)"
  obtain b where b: "qp_newline_cond p lineLen i = Inr b"
    using assms ge s by (auto simp: qp_step_def i_def Let_def split: sum.splits)
  show ?thesis
  proof (cases b)
    case True
    then have "i \<noteq> - 1"
      using b by (auto simp: qp_newline_cond_def split: if_splits)
    then have "0 \<le> i"
      using indexLF_range [of "bytes s"] by (simp add: i_def)
    then show ?thesis
      using assms ge s b True
      by (auto simp: qp_step_def i_def [symmetric] Let_def slice_from_def
               split: sum.splits if_splits)
  next
    case False
    then obtain t where t: "qp_toWrite p lineLen = Inr t"
      using assms ge s b
      by (auto simp: qp_step_def i_def [symmetric] Let_def split: sum.splits)
    from qp_toWrite_range [OF t] show ?thesis
      using assms ge s b False t
      by (auto simp: qp_step_def i_def [symmetric] Let_def slice_from_def maxLineLen_def
               split: sum.splits if_splits)
  qed
qed

text \<open>The loop \<open>for len(p) > 0\<close> of export.go:249-286; the result is
  \<open>(n, w.lineLen, w.w)\<close>.\<close>

function qp_loop :: "go_slice \<Rightarrow> int \<Rightarrow> int \<Rightarrow> written list \<Rightarrow> panic + (int \<times> int \<times> written list)" where
  "qp_loop p lineLen n out =
     (if len p > 0 then
        (case qp_step p lineLen n out of
           QpReturn n' lineLen' out' \<Rightarrow> Inr (n', lineLen', out')
         | QpNext p' lineLen' n' out' \<Rightarrow> qp_loop p' lineLen' n' out'
         | QpPanic e \<Rightarrow> Inl e)
      else Inr (n, lineLen, out))"
  by pat_completeness auto
termination
proof (relation "measure (\<lambda>(p, lineLen, n, out). 2 * len p + (if lineLen = 0 then 0 else 1))")
  show "wf (measure (\<lambda>(p, lineLen, n, out). 2 * len p + (if lineLen = 0 then 0 else 1)))"
    by simp
next
  fix p :: go_slice and lineLen n :: int and out :: "written list"
    and p' :: go_slice and lineLen' n' :: int and out' :: "written list"
  assume "0 < len p" and "qp_step p lineLen n out = QpNext p' lineLen' n' out'"
  from qp_step_progress [OF this(2)]
  show "((p', lineLen', n', out'), (p, lineLen, n, out))
          \<in> measure (\<lambda>(p, lineLen, n, out). 2 * len p + (if lineLen = 0 then 0 else 1))"
    by auto
qed

declare qp_loop.simps [simp del]

definition qp_Write :: "qpLineWriter \<Rightarrow> go_slice \<Rightarrow> panic + (qpLineWriter \<times> int)" where
  "qp_Write w p =
     (case qp_loop p (qp_lineLen w) 0 (qp_w w) of
        Inl e \<Rightarrow> Inl e
      | Inr (n, lineLen, out) \<Rightarrow> Inr (\<lparr>qp_w = out, qp_lineLen = lineLen\<rparr>, n))"

text \<open>
  The lines of a byte stream: the content between two CRLF markers, without the
  terminator. \<open>lines_acc cur bs\<close> scans \<open>bs\<close> with \<open>cur\<close> the reversed content of
  the line being read; the last element is the unterminated rest.
\<close>

fun lines_acc :: "char list \<Rightarrow> char list \<Rightarrow> char list list" where
  "lines_acc cur [] = [rev cur]"
| "lines_acc cur [c] = [rev (c # cur)]"
| "lines_acc cur (c # d # bs) =
     (if c = CR \<and> d = LF then rev cur # lines_acc [] bs else lines_acc (c # cur) (d # bs))"

definition crlf_lines :: "char list \<Rightarrow> char list list" where
  "crlf_lines bs = lines_acc [] bs"

text \<open>
  An escape triplet of quoted-printable text is \<open>=\<close> followed by two hexadecimal
  digits (RFC 2045 writes them in upper case). \<open>escape_at bs j\<close>: a triplet starts at
  index \<open>j\<close> of \<open>bs\<close>. A cut before index \<open>c\<close> splits a triplet when one starts
  one or two bytes before \<open>c\<close>.
\<close>

definition is_hex :: "char \<Rightarrow> bool" where
  "is_hex c = (c \<in> set ''0123456789ABCDEF'')"

definition escape_at :: "char list \<Rightarrow> nat \<Rightarrow> bool" where
  "escape_at bs j =
     (j + 2 < length bs \<and> bs ! j = EQ \<and> is_hex (bs ! (j + 1)) \<and> is_hex (bs ! (j + 2)))"

definition splits_escape :: "char list \<Rightarrow> nat \<Rightarrow> bool" where
  "splits_escape bs c = ((1 \<le> c \<and> escape_at bs (c - 1)) \<or> (2 \<le> c \<and> escape_at bs (c - 2)))"

text \<open>
  \<open>soft_cuts k ws\<close>: the positions in the input, counted from \<open>k\<close>, at which the
  writes \<open>ws\<close> insert a constant of the writer; \<open>payload ws\<close>: the input bytes the
  writes pass on.
\<close>

fun soft_cuts :: "nat \<Rightarrow> written list \<Rightarrow> nat list" where
  "soft_cuts k [] = []"
| "soft_cuts k (Payload bs # ws) = soft_cuts (k + length bs) ws"
| "soft_cuts k (Inserted bs # ws) = k # soft_cuts k ws"

fun payload :: "written list \<Rightarrow> char list" where
  "payload [] = []"
| "payload (Payload bs # ws) = bs @ payload ws"
| "payload (Inserted bs # ws) = payload ws"

section \<open>Structure classifier (export.go:72-82)\<close>

text \<open>
  The \<open>Message\<close>, \<open>part\<close> and \<open>File\<close> types are declared outside export.go; the
  records hold the fields export.go reads or writes. Pointers to byte buffers and to
  header maps are addresses into a store (see below), so that aliasing is visible.
\<close>

type_synonym addr = nat

text \<open>\<open>type Encoding string\<close> with its four constants; any other string is
  \<open>OtherEncoding\<close>.\<close>

datatype Encoding = QuotedPrintable | Base64 | Base64PreEncoded | Unencoded | OtherEncoding string

record part =
  contentType :: string
  body :: addr

record File =
  Name :: string
  MimeType :: string
  Content :: "char list"
  ContentID :: string
  file_encoding :: Encoding

text \<open>
  Modelled from the spec: the patched \<open>multipart.Writer\<close> is not in export.go. A writer
  has the boundary token it generated when it was opened, and remembers whether a part
  was created in it.
\<close>

record mp_writer =
  boundary :: string
  has_part :: bool

text \<open>\<open>type messageWriter struct\<close> (export.go:85-91). \<open>header\<close> and \<open>buf\<close> are
  references; \<open>writers\<close> is the array \<open>[3]*Writer\<close> (\<open>None\<close> is \<open>nil\<close>);
  \<open>partWriter\<close> is the index of the writer whose current part it writes to;
  \<open>depth\<close> is a \<open>uint8\<close>.\<close>

record messageWriter =
  mw_header :: addr
  mw_buf :: addr
  writers :: "mp_writer option list"
  partWriter :: "nat option"
  depth :: "8 word"

record Message =
  header :: addr
  parts :: "part list"
  attachments :: "File list"
  embedded :: "File list"
  charset :: string
  encoding :: Encoding
  msgWriter :: "messageWriter option"

definition hasMixedPart :: "Message \<Rightarrow> bool" where
  "hasMixedPart msg =
     ((length (parts msg) > 0 \<and> length (attachments msg) > 0) \<or> length (attachments msg) > 1)"

definition hasRelatedPart :: "Message \<Rightarrow> bool" where
  "hasRelatedPart msg =
     ((length (parts msg) > 0 \<and> length (embedded msg) > 0) \<or> length (embedded msg) > 1)"

definition hasAlternativePart :: "Message \<Rightarrow> bool" where
  "hasAlternativePart msg = (length (parts msg) > 1)"

text \<open>The spec's formulas of section 4.1, over the three counts.\<close>

definition spec_needsMixed :: "nat \<Rightarrow> nat \<Rightarrow> nat \<Rightarrow> bool" where
  "spec_needsMixed numParts numEmbedded numAttachments =
     ((numParts > 0 \<and> numAttachments > 0) \<or> numAttachments > 1)"

definition spec_needsRelated :: "nat \<Rightarrow> nat \<Rightarrow> nat \<Rightarrow> bool" where
  "spec_needsRelated numParts numEmbedded numAttachments =
     ((numParts > 0 \<and> numEmbedded > 0) \<or> numEmbedded > 1)"

definition spec_needsAlternative :: "nat \<Rightarrow> nat \<Rightarrow> nat \<Rightarrow> bool" where
  "spec_needsAlternative numParts numEmbedded numAttachments = (numParts > 1)"

text \<open>A message with the given numbers of parts, embedded files and attachments.\<close>

definition msg_with_counts :: "nat \<Rightarrow> nat \<Rightarrow> nat \<Rightarrow> Message" where
  "msg_with_counts np ne na =
     \<lparr>header = 0,
      parts = replicate np \<lparr>contentType = ''text/plain'', body = 0\<rparr>,
      attachments = replicate na
        \<lparr>Name = ''a'', MimeType = ''t'', Content = [], ContentID = [], file_encoding = Base64\<rparr>,
      embedded = replicate ne
        \<lparr>Name = ''e'', MimeType = ''t'', Content = [], ContentID = [], file_encoding = Base64\<rparr>,
      charset = ''UTF-8'', encoding = QuotedPrintable, msgWriter = None\<rparr>"

section \<open>The store, the buffer pool and the libraries export.go calls\<close>

text \<open>
  Go maps and \<open>*bytes.Buffer\<close> are references. The store holds the header maps and
  the buffers by address, so that two references to one object are one address. A
  reference the store does not hold is \<open>nil\<close>: a \<open>nil\<close> map reads as empty.
  \<open>pool\<close> is the shared buffer pool, \<open>rnd\<close> counts the boundaries generated.
\<close>

type_synonym header_map = "string \<rightharpoonup> string list"

record world =
  maps :: "header_map list"
  bufs :: "char list list"
  pool :: "addr list"
  rnd :: nat

definition get_map :: "world \<Rightarrow> addr \<Rightarrow> header_map" where
  "get_map s a = (if a < length (maps s) then maps s ! a else Map.empty)"

definition set_map_field :: "world \<Rightarrow> addr \<Rightarrow> string \<Rightarrow> string list \<Rightarrow> world" where
  "set_map_field s a k v = s\<lparr>maps := (maps s)[a := (get_map s a)(k \<mapsto> v)]\<rparr>"

definition new_map :: "world \<Rightarrow> header_map \<Rightarrow> addr \<times> world" where
  "new_map s m = (length (maps s), s\<lparr>maps := maps s @ [m]\<rparr>)"

definition buf_bytes :: "world \<Rightarrow> addr \<Rightarrow> panic + char list" where
  "buf_bytes s a = (if a < length (bufs s) then Inr (bufs s ! a) else Inl NilDeref)"

definition buf_write :: "world \<Rightarrow> addr \<Rightarrow> char list \<Rightarrow> world" where
  "buf_write s a bs = s\<lparr>bufs := (bufs s)[a := bufs s ! a @ bs]\<rparr>"

text \<open>
  Modelled from the spec: \<open>getBuffer\<close> and \<open>putBuffer\<close> are not in export.go. The spec
  has a shared pool with acquire and release: acquiring hands out a pooled buffer, or a
  new one when the pool is empty, and the buffer then belongs to the caller; releasing
  returns the buffer, emptied, to the pool.
\<close>

definition getBuffer :: "world \<Rightarrow> addr \<times> world" where
  "getBuffer s =
     (case pool s of
        [] \<Rightarrow> (length (bufs s), s\<lparr>bufs := bufs s @ [[]]\<rparr>)
      | a # rest \<Rightarrow> (a, s\<lparr>pool := rest\<rparr>))"

definition putBuffer :: "world \<Rightarrow> addr \<Rightarrow> world" where
  "putBuffer s a = s\<lparr>bufs := (bufs s)[a := []], pool := a # pool s\<rparr>"

text \<open>
  What export.go takes from outside the repository's export.go, as parameters:
  \<open>formatted_now\<close> is \<open>msg.FormatDate(now())\<close>; \<open>encoding_name\<close> is the conversion
  \<open>string(enc)\<close>; \<open>random_boundary\<close> is the boundary the n-th multipart writer
  generates; \<open>part_header_bytes\<close> is the rendering of a part's header by the multipart
  writer; \<open>base64_encoder_writes\<close> and \<open>qp_encoder_writes\<close> are the \<open>Write\<close> calls that
  \<open>base64.NewEncoder\<close> (with its \<open>Close\<close>) and \<open>quotedprintable.NewEncoder\<close> make on
  their sink for a body.
\<close>

record env =
  formatted_now :: string
  encoding_name :: "Encoding \<Rightarrow> string"
  random_boundary :: "nat \<Rightarrow> string"
  part_header_bytes :: "(string \<times> string list) list \<Rightarrow> char list"
  base64_encoder_writes :: "char list \<Rightarrow> char list list"
  qp_encoder_writes :: "char list \<Rightarrow> go_slice list"

text \<open>
  Modelled from the spec: the patched multipart writer is not in export.go.
  \<open>NewWriter\<close> generates a fresh boundary; \<open>CreatePart\<close> writes a boundary-delimited
  part header into the section; \<open>Close\<close> writes the terminating boundary marker. The
  delimiter lines are those of Go's mime/multipart.
\<close>

definition mp_NewWriter :: "env \<Rightarrow> world \<Rightarrow> mp_writer \<times> world" where
  "mp_NewWriter e s =
     (\<lparr>boundary = random_boundary e (rnd s), has_part = False\<rparr>, s\<lparr>rnd := Suc (rnd s)\<rparr>)"

definition mp_CreatePart_bytes :: "env \<Rightarrow> mp_writer \<Rightarrow> (string \<times> string list) list \<Rightarrow> char list" where
  "mp_CreatePart_bytes e mw h =
     (if has_part mw then crlf else []) @ ''--'' @ boundary mw @ crlf @
     part_header_bytes e h @ crlf"

definition mp_Close_bytes :: "mp_writer \<Rightarrow> char list" where
  "mp_Close_bytes mw = crlf @ ''--'' @ boundary mw @ ''--'' @ crlf"

section \<open>The message writer (export.go:84-202)\<close>

text \<open>A function of the writer takes and returns the store and the writer, or panics.\<close>

type_synonym st = "world \<times> messageWriter"

definition bindP :: "panic + 'a \<Rightarrow> ('a \<Rightarrow> panic + 'b) \<Rightarrow> panic + 'b" where
  "bindP m f = (case m of Inl e \<Rightarrow> Inl e | Inr x \<Rightarrow> f x)"

definition newMessageWriter :: "env \<Rightarrow> world \<Rightarrow> Message \<Rightarrow> st" where
  "newMessageWriter e s msg =
     (let h0 = get_map s (header msg);
          h1 = (if h0 ''Mime-Version'' = None then h0(''Mime-Version'' \<mapsto> [''1.0'']) else h0);
          h2 = (if h1 ''Date'' = None then h1(''Date'' \<mapsto> [formatted_now e]) else h1);
          (ha, s1) = new_map s h2;
          (b, s2) = getBuffer s1
      in (s2, \<lparr>mw_header = ha, mw_buf = b, writers = [None, None, None],
               partWriter = None, depth = 0\<rparr>))"

text \<open>\<open>w.writers[i]\<close> followed by a method call: the index is checked against the array
  of three, the pointer against \<open>nil\<close>.\<close>

definition writer_at :: "messageWriter \<Rightarrow> 8 word \<Rightarrow> panic + mp_writer" where
  "writer_at w i =
     (if unat i < length (writers w)
      then (case writers w ! unat i of None \<Rightarrow> Inl NilDeref | Some mw \<Rightarrow> Inr mw)
      else Inl IndexRange)"

definition createPart :: "env \<Rightarrow> (string \<times> string list) list \<Rightarrow> st \<Rightarrow> panic + st" where
  "createPart e h = (\<lambda>(s, w).
     bindP (writer_at w (depth w - 1)) (\<lambda>mw.
       Inr (buf_write s (mw_buf w) (mp_CreatePart_bytes e mw h),
            w\<lparr>writers := (writers w)[unat (depth w - 1) := Some (mw\<lparr>has_part := True\<rparr>)],
              partWriter := Some (unat (depth w - 1))\<rparr>)))"

definition multipart_contentType :: "string \<Rightarrow> string \<Rightarrow> string" where
  "multipart_contentType mimeType b = ''multipart/'' @ mimeType @ ''; boundary='' @ b"

definition openMultipart :: "env \<Rightarrow> string \<Rightarrow> st \<Rightarrow> panic + st" where
  "openMultipart e mimeType = (\<lambda>(s, w).
     if unat (depth w) < length (writers w) then
       (let (mw, s1) = mp_NewWriter e s;
            w1 = w\<lparr>writers := (writers w)[unat (depth w) := Some mw]\<rparr>;
            contentType = multipart_contentType mimeType (boundary mw)
        in if depth w1 = 0
           then Inr (set_map_field s1 (mw_header w1) ''Content-Type'' [contentType],
                     w1\<lparr>depth := depth w1 + 1\<rparr>)
           else bindP (createPart e [(''Content-Type'', [contentType])] (s1, w1))
                  (\<lambda>(s2, w2). Inr (s2, w2\<lparr>depth := depth w2 + 1\<rparr>)))
     else Inl IndexRange)"

definition closeMultipart :: "st \<Rightarrow> panic + st" where
  "closeMultipart = (\<lambda>(s, w).
     if depth w > 0 then
       bindP (writer_at w (depth w - 1)) (\<lambda>mw.
         Inr (buf_write s (mw_buf w) (mp_Close_bytes mw),
              w\<lparr>writers := (writers w)[unat (depth w - 1) := Some (mw\<lparr>has_part := False\<rparr>)],
                depth := depth w - 1\<rparr>))
     else Inr (s, w))"

definition writeHeader :: "env \<Rightarrow> (string \<times> string list) list \<Rightarrow> st \<Rightarrow> panic + st" where
  "writeHeader e h = (\<lambda>(s, w).
     if depth w = 0
     then Inr (fold (\<lambda>(field, val) s'. set_map_field s' (mw_header w) field val) h s, w)
     else createPart e h (s, w))"

text \<open>A sequence of \<open>Write\<close> calls on one quoted-printable line writer.\<close>

fun qp_Writes :: "qpLineWriter \<Rightarrow> go_slice list \<Rightarrow> panic + qpLineWriter" where
  "qp_Writes w [] = Inr w"
| "qp_Writes w (p # ps) =
     (case qp_Write w p of Inl e \<Rightarrow> Inl e | Inr (w', n) \<Rightarrow> qp_Writes w' ps)"

text \<open>The calls of \<open>subWriter.Write\<close> that \<open>writeBody\<close> causes (export.go:186-197).\<close>

definition body_writes :: "env \<Rightarrow> char list \<Rightarrow> Encoding \<Rightarrow> panic + written list" where
  "body_writes e bs enc =
     (if enc = Base64 then
        bindP (base64_Writes (newBase64LineWriter []) (base64_encoder_writes e bs))
          (\<lambda>lw. Inr (b64_w lw))
      else if enc = Base64PreEncoded then
        bindP (base64_Write (newBase64LineWriter []) bs) (\<lambda>(lw, n). Inr (b64_w lw))
      else if enc = Unencoded then Inr [Payload bs]
      else
        bindP (qp_Writes (newQpLineWriter []) (qp_encoder_writes e bs))
          (\<lambda>lw. Inr (qp_w lw)))"

text \<open>\<open>subWriter\<close> is \<open>w.buf\<close> at depth 0 and \<open>w.partWriter\<close> otherwise; a part writer
  writes into \<open>w.buf\<close>, and a call on a \<open>nil\<close> part writer panics.\<close>

definition writeBody :: "env \<Rightarrow> char list \<Rightarrow> Encoding \<Rightarrow> st \<Rightarrow> panic + st" where
  "writeBody e bs enc = (\<lambda>(s, w).
     bindP (body_writes e bs enc) (\<lambda>ws.
       if ws = [] then Inr (s, w)
       else if depth w \<noteq> 0 \<and> partWriter w = None then Inl NilDeref
       else Inr (buf_write s (mw_buf w) (flat ws), w)))"

text \<open>\<open>messageWriter.write\<close> (export.go:161-164); \<open>write\<close> is a keyword of
  Isabelle.\<close>

definition mw_write :: "env \<Rightarrow> (string \<times> string list) list \<Rightarrow> char list \<Rightarrow> Encoding \<Rightarrow> st \<Rightarrow> panic + st" where
  "mw_write e h bs enc st = bindP (writeHeader e h st) (writeBody e bs enc)"

definition dquote :: string where "dquote = [CHR 0x22]"

definition file_header :: "env \<Rightarrow> File \<Rightarrow> bool \<Rightarrow> (string \<times> string list) list" where
  "file_header e f isAttachment =
     [(''Content-Type'', [MimeType f @ ''; name='' @ dquote @ Name f @ dquote]),
      (''Content-Transfer-Encoding'', [encoding_name e Base64])] @
     (if isAttachment
      then [(''Content-Disposition'', [''attachment; filename='' @ dquote @ Name f @ dquote])]
      else [(''Content-Disposition'', [''inline; filename='' @ dquote @ Name f @ dquote]),
            (''Content-ID'',
               [if ContentID f \<noteq> [] then ''<'' @ ContentID f @ ''>''
                else ''<'' @ Name f @ ''>''])])"

fun addFiles :: "env \<Rightarrow> File list \<Rightarrow> bool \<Rightarrow> st \<Rightarrow> panic + st" where
  "addFiles e [] isAttachment st = Inr st"
| "addFiles e (f # files) isAttachment st =
     bindP (mw_write e (file_header e f isAttachment) (Content f) (file_encoding f) st)
       (addFiles e files isAttachment)"

record mail_Message =
  mail_Header :: addr
  mail_Body :: addr

definition export :: "messageWriter \<Rightarrow> mail_Message" where
  "export w = \<lparr>mail_Header = mw_header w, mail_Body = mw_buf w\<rparr>"

section \<open>Export and Reset (export.go:14-70)\<close>

definition part_header :: "env \<Rightarrow> Message \<Rightarrow> part \<Rightarrow> (string \<times> string list) list" where
  "part_header e msg p =
     [(''Mime-Version'', [''1.0'']),
      (''Content-Type'', [contentType p @ ''; charset='' @ charset msg]),
      (''Content-Transfer-Encoding'', [encoding_name e (encoding msg)])]"

text \<open>
  The statements of \<open>Export\<close> between \<open>newMessageWriter\<close> and \<open>msg.msgWriter = w\<close>, in
  order; \<open>WritePart\<close> is one iteration of the loop over \<open>msg.parts\<close>.
\<close>

datatype step = OpenMultipart string | CloseMultipart | WritePart part | AddFiles "File list" bool

definition Export_steps :: "Message \<Rightarrow> step list" where
  "Export_steps msg =
     (if hasMixedPart msg then [OpenMultipart ''mixed''] else []) @
     (if hasRelatedPart msg then [OpenMultipart ''related''] else []) @
     (if hasAlternativePart msg then [OpenMultipart ''alternative''] else []) @
     map WritePart (parts msg) @
     (if hasAlternativePart msg then [CloseMultipart] else []) @
     [AddFiles (embedded msg) False] @
     (if hasRelatedPart msg then [CloseMultipart] else []) @
     [AddFiles (attachments msg) True] @
     (if hasMixedPart msg then [CloseMultipart] else [])"

fun run_step :: "env \<Rightarrow> Message \<Rightarrow> step \<Rightarrow> st \<Rightarrow> panic + st" where
  "run_step e msg (OpenMultipart mimeType) st = openMultipart e mimeType st"
| "run_step e msg CloseMultipart st = closeMultipart st"
| "run_step e msg (WritePart p) st =
     bindP (buf_bytes (fst st) (body p))
       (\<lambda>bs. mw_write e (part_header e msg p) bs (encoding msg) st)"
| "run_step e msg (AddFiles files isAttachment) st = addFiles e files isAttachment st"

fun run_steps :: "env \<Rightarrow> Message \<Rightarrow> step list \<Rightarrow> st \<Rightarrow> panic + st" where
  "run_steps e msg [] st = Inr st"
| "run_steps e msg (x # xs) st = bindP (run_step e msg x st) (run_steps e msg xs)"

text \<open>\<open>Export\<close> returns the store, the message (whose \<open>msgWriter\<close> it assigns) and the
  \<open>mail.Message\<close>.\<close>

definition Export :: "env \<Rightarrow> world \<Rightarrow> Message \<Rightarrow> panic + (world \<times> Message \<times> mail_Message)" where
  "Export e s msg =
     bindP (run_steps e msg (Export_steps msg) (newMessageWriter e s msg))
       (\<lambda>(s', w). Inr (s', msg\<lparr>msgWriter := Some w\<rparr>, export w))"

definition Reset :: "world \<Rightarrow> Message \<Rightarrow> world \<times> Message" where
  "Reset s msg =
     (let s1 = fold (\<lambda>p s'. putBuffer s' (body p)) (parts msg) s;
          msg1 = msg\<lparr>parts := []\<rparr>;
          (s2, msg2) = (case msgWriter msg1 of
                          None \<Rightarrow> (s1, msg1)
                        | Some w \<Rightarrow> (putBuffer s1 (mw_buf w), msg1\<lparr>msgWriter := None\<rparr>));
          (ha, s3) = new_map s2 Map.empty
      in (s3, msg2\<lparr>header := ha, attachments := [], embedded := []\<rparr>))"

text \<open>The spec's words for a sequence of writes: the chunks of each write, started at
  the column the previous write left.\<close>

fun spec_base64_stream :: "nat \<Rightarrow> char list list \<Rightarrow> written list" where
  "spec_base64_stream col [] = []"
| "spec_base64_stream col (p # ps) =
     spec_base64_chunks col p @ spec_base64_stream (spec_base64_column col (length p)) ps"

fun spec_base64_columns :: "nat \<Rightarrow> char list list \<Rightarrow> nat list" where
  "spec_base64_columns col [] = []"
| "spec_base64_columns col (p # ps) =
     spec_base64_column col (length p) # spec_base64_columns (spec_base64_column col (length p)) ps"

section \<open>Notions for the properties of the writer and of Export\<close>

text \<open>
  The states of a message writer that the operations reach: the array has its three
  slots, the depth is at most 3, and every slot below the depth holds a writer.
\<close>

definition wf_writer :: "messageWriter \<Rightarrow> bool" where
  "wf_writer w =
     (length (writers w) = 3 \<and> unat (depth w) \<le> 3 \<and>
      list_all (\<lambda>i. writers w ! i \<noteq> None) [0 ..< unat (depth w)])"

text \<open>
  \<open>depth_after d xs\<close>: the depth after the steps \<open>xs\<close>, from depth \<open>d\<close>, counting
  an opening as one up and a closing as one down (none at 0). \<open>depth_trace\<close>: the depth
  of the writer after each step of a run, up to the first panic.
\<close>

fun depth_after :: "nat \<Rightarrow> step list \<Rightarrow> nat" where
  "depth_after d [] = d"
| "depth_after d (OpenMultipart mimeType # xs) = depth_after (d + 1) xs"
| "depth_after d (CloseMultipart # xs) = depth_after (d - 1) xs"
| "depth_after d (WritePart p # xs) = depth_after d xs"
| "depth_after d (AddFiles files isAttachment # xs) = depth_after d xs"

fun depth_trace :: "env \<Rightarrow> Message \<Rightarrow> step list \<Rightarrow> st \<Rightarrow> nat list" where
  "depth_trace e msg [] st = []"
| "depth_trace e msg (x # xs) st =
     (case run_step e msg x st of
        Inl err \<Rightarrow> []
      | Inr st' \<Rightarrow> unat (depth (snd st')) # depth_trace e msg xs st')"

fun is_multipart_step :: "step \<Rightarrow> bool" where
  "is_multipart_step (OpenMultipart mimeType) = True"
| "is_multipart_step CloseMultipart = True"
| "is_multipart_step (WritePart p) = False"
| "is_multipart_step (AddFiles files isAttachment) = False"

fun is_WritePart :: "step \<Rightarrow> bool" where
  "is_WritePart (WritePart p) = True"
| "is_WritePart (OpenMultipart mimeType) = False"
| "is_WritePart CloseMultipart = False"
| "is_WritePart (AddFiles files isAttachment) = False"

text \<open>The wrappers a message needs, outermost first.\<close>

definition wrappers :: "Message \<Rightarrow> string list" where
  "wrappers msg =
     (if hasMixedPart msg then [''mixed''] else []) @
     (if hasRelatedPart msg then [''related''] else []) @
     (if hasAlternativePart msg then [''alternative''] else [])"

text \<open>The encodings whose bodies do not go through the quoted-printable line writer.\<close>

definition line_safe :: "Encoding \<Rightarrow> bool" where
  "line_safe enc = (enc = Base64 \<or> enc = Base64PreEncoded \<or> enc = Unencoded)"

text \<open>The header fields a file and a part carry.\<close>

definition file_keys :: "string set" where
  "file_keys = {''Content-Type'', ''Content-Transfer-Encoding'', ''Content-Disposition'',
                ''Content-ID''}"

definition part_keys :: "string set" where
  "part_keys = {''Mime-Version'', ''Content-Type'', ''Content-Transfer-Encoding''}"

text \<open>
  What \<open>run_steps\<close> needs in order not to panic, read off the steps: \<open>d\<close> is the depth
  before the steps and \<open>n\<close> the number of buffers of the store.
\<close>

fun steps_ok :: "nat \<Rightarrow> nat \<Rightarrow> Message \<Rightarrow> step list \<Rightarrow> bool" where
  "steps_ok d n msg [] = True"
| "steps_ok d n msg (OpenMultipart mimeType # xs) = (d < 3 \<and> steps_ok (d + 1) n msg xs)"
| "steps_ok d n msg (CloseMultipart # xs) = steps_ok (d - 1) n msg xs"
| "steps_ok d n msg (WritePart p # xs) =
     (body p < n \<and> line_safe (encoding msg) \<and> steps_ok d n msg xs)"
| "steps_ok d n msg (AddFiles files isAttachment # xs) =
     (list_all (\<lambda>f. line_safe (file_encoding f)) files \<and> steps_ok d n msg xs)"

definition writable :: "world \<Rightarrow> Message \<Rightarrow> bool" where
  "writable s msg =
     (list_all (\<lambda>p. body p < length (bufs s)) (parts msg) \<and>
      (parts msg = [] \<or> line_safe (encoding msg)) \<and>
      list_all (\<lambda>f. line_safe (file_encoding f)) (embedded msg) \<and>
      list_all (\<lambda>f. line_safe (file_encoding f)) (attachments msg))"

text \<open>Sample values, for the instances below.\<close>

definition env0 :: env where
  "env0 = \<lparr>formatted_now = ''Mon, 02 Jan 2006 15:04:05 -0700'',
           encoding_name = (\<lambda>enc. case enc of QuotedPrintable \<Rightarrow> ''quoted-printable''
              | Base64 \<Rightarrow> ''base64'' | Base64PreEncoded \<Rightarrow> ''base64''
              | Unencoded \<Rightarrow> ''8bit'' | OtherEncoding name \<Rightarrow> name),
           random_boundary = (\<lambda>n. replicate (Suc n) (CHR ''b'')),
           part_header_bytes =
             (\<lambda>h. concat (map (\<lambda>(k, vs). concat (map (\<lambda>v. k @ '': '' @ v @ crlf) vs)) h)),
           base64_encoder_writes = (\<lambda>bs. [bs]),
           qp_encoder_writes = (\<lambda>bs. [mk_slice bs])\<rparr>"

definition world0 :: world where
  "world0 = \<lparr>maps = [[''Subject'' \<mapsto> [''Hi''], ''Mime-Version'' \<mapsto> [''2.0'']]],
             bufs = [''Hello'', ''<b>Hello</b>''], pool = [], rnd = 0\<rparr>"

definition file0 :: File where
  "file0 = \<lparr>Name = ''f.txt'', MimeType = ''text/plain'', Content = ''QUJD'', ContentID = [],
            file_encoding = Base64PreEncoded\<rparr>"

definition msg1 :: Message where
  "msg1 = \<lparr>header = 0, parts = [\<lparr>contentType = ''text/plain'', body = 0\<rparr>],
           attachments = [], embedded = [], charset = ''UTF-8'', encoding = Unencoded,
           msgWriter = None\<rparr>"

definition msg4 :: Message where
  "msg4 = \<lparr>header = 0,
           parts = [\<lparr>contentType = ''text/plain'', body = 0\<rparr>,
                    \<lparr>contentType = ''text/html'', body = 1\<rparr>],
           attachments = [file0], embedded = [file0], charset = ''UTF-8'',
           encoding = Unencoded, msgWriter = None\<rparr>"

definition writer1 :: messageWriter where
  "writer1 = \<lparr>mw_header = 0, mw_buf = 0,
              writers = [Some \<lparr>boundary = ''b'', has_part = True\<rparr>, None, None],
              partWriter = Some 0, depth = 1\<rparr>"

definition msg5 :: Message where
  "msg5 = msg4\<lparr>msgWriter := Some writer1\<rparr>"



text \<open>
  \<open>frameK K st st'\<close>: from \<open>st\<close> to \<open>st'\<close> the writer keeps its header map and its
  buffer; of the store, only that map changed, and of it only fields in \<open>K\<close>; only that
  buffer changed; the pool did not change.
\<close>

definition frameK :: "string set \<Rightarrow> st \<Rightarrow> st \<Rightarrow> bool" where
  "frameK K st st' =
     (length (maps (fst st')) = length (maps (fst st)) \<and>
      (\<forall>a. a \<noteq> mw_header (snd st) \<longrightarrow> get_map (fst st') a = get_map (fst st) a) \<and>
      (\<forall>k. k \<notin> K \<longrightarrow>
         get_map (fst st') (mw_header (snd st)) k = get_map (fst st) (mw_header (snd st)) k) \<and>
      length (bufs (fst st')) = length (bufs (fst st)) \<and>
      (\<forall>a. a \<noteq> mw_buf (snd st) \<longrightarrow> bufs (fst st') ! a = bufs (fst st) ! a) \<and>
      pool (fst st') = pool (fst st) \<and>
      mw_header (snd st') = mw_header (snd st) \<and> mw_buf (snd st') = mw_buf (snd st))"

section \<open>Properties of the line-wrapping encoders\<close>

lemma b64_loop_refines:
  "0 \<le> l \<Longrightarrow> l \<le> maxLineLen \<Longrightarrow>
   \<exists>p' l' n' out'. b64_loop p l n out = Inr (p', l', n', out') \<and>
      out' @ [Payload p'] = out @ spec_base64_chunks (nat l) p \<and>
      n' + int (length p') = n + int (length p) \<and>
      l' + int (length p') = int (spec_base64_column (nat l) (length p)) \<and>
      0 \<le> l' \<and> l' + int (length p') \<le> maxLineLen"
proof (induction p l n out rule: b64_loop.induct)
  case (1 p lineLen n out)
  show ?case
  proof (cases "int (length p) + lineLen > maxLineLen")
    case False
    then show ?thesis using "1.prems"
      by (subst b64_loop.simps, subst spec_base64_chunks.simps)
         (auto simp add: maxLineLen_def spec_base64_column_def)
  next
    case True
    let ?k = "nat (maxLineLen - lineLen)"
    have nneg: "\<not> maxLineLen - lineLen < 0" using "1.prems" by simp
    from "1.IH" [OF True nneg] obtain p' l' n' out' where
      r: "b64_loop (drop ?k p) 0 (n + (maxLineLen - lineLen))
            (out @ [Payload (take ?k p), Inserted crlf]) = Inr (p', l', n', out')"
      and o: "out' @ [Payload p'] =
            (out @ [Payload (take ?k p), Inserted crlf]) @ spec_base64_chunks (nat 0) (drop ?k p)"
      and n: "n' + int (length p') = (n + (maxLineLen - lineLen)) + int (length (drop ?k p))"
      and c: "l' + int (length p') = int (spec_base64_column (nat 0) (length (drop ?k p)))"
      and b: "0 \<le> l'" "l' + int (length p') \<le> maxLineLen"
      by (auto simp: maxLineLen_def)
    have k: "?k = 76 - nat lineLen" using "1.prems" by (simp add: maxLineLen_def)
    have lp: "length p + nat lineLen > 76" using True "1.prems" by (simp add: maxLineLen_def)
    have e1: "b64_loop p lineLen n out = Inr (p', l', n', out')"
      using True nneg r by (subst b64_loop.simps) simp
    have e2: "spec_base64_chunks (nat lineLen) p =
        Payload (take ?k p) # Inserted crlf # spec_base64_chunks 0 (drop ?k p)"
      using lp by (subst spec_base64_chunks.simps) (simp add: k)
    have e3: "spec_base64_column (nat lineLen) (length p) =
        spec_base64_column 0 (length (drop ?k p))"
    proof -
      define m where "m = length p - (76 - nat lineLen)"
      have m1: "1 \<le> m" and m2: "nat lineLen + length p - 1 = (m - 1) + 76"
        using lp "1.prems" by (auto simp: m_def maxLineLen_def)
      have "(nat lineLen + length p - 1) mod 76 = (m - 1) mod 76"
        unfolding m2 by simp
      moreover have "m \<le> 76 \<Longrightarrow> (m - 1) mod 76 + 1 = m"
        using m1 by simp
      ultimately show ?thesis
        using lp by (auto simp: spec_base64_column_def k m_def [symmetric])
    qed
    show ?thesis
      using e1 e2 e3 o n c b True "1.prems" by (simp add: maxLineLen_def)
  qed
qed

lemma base64_Write_refines:
  assumes "0 \<le> b64_lineLen w" "b64_lineLen w \<le> maxLineLen"
  shows "\<exists>w'. base64_Write w p = Inr (w', int (length p)) \<and>
     b64_w w' = b64_w w @ spec_base64_chunks (nat (b64_lineLen w)) p \<and>
     b64_lineLen w' = int (spec_base64_column (nat (b64_lineLen w)) (length p)) \<and>
     0 \<le> b64_lineLen w' \<and> b64_lineLen w' \<le> maxLineLen"
proof -
  from b64_loop_refines [OF assms, of p 0 "b64_w w"] obtain p' l' n' out' where
    r: "b64_loop p (b64_lineLen w) 0 (b64_w w) = Inr (p', l', n', out')"
    and o: "out' @ [Payload p'] = b64_w w @ spec_base64_chunks (nat (b64_lineLen w)) p"
    and n: "n' + int (length p') = 0 + int (length p)"
    and c: "l' + int (length p') = int (spec_base64_column (nat (b64_lineLen w)) (length p))"
    and b: "0 \<le> l'" "l' + int (length p') \<le> maxLineLen"
    by blast
  show ?thesis
    using r o n c b by (simp add: base64_Write_def)
qed

lemma base64_Writes_refines:
  "0 \<le> b64_lineLen w \<Longrightarrow> b64_lineLen w \<le> maxLineLen \<Longrightarrow>
   \<exists>w'. base64_Writes w ps = Inr w' \<and>
     b64_w w' = b64_w w @ spec_base64_stream (nat (b64_lineLen w)) ps \<and>
     b64_lineLen w' = int (last (nat (b64_lineLen w) # spec_base64_columns (nat (b64_lineLen w)) ps)) \<and>
     0 \<le> b64_lineLen w' \<and> b64_lineLen w' \<le> maxLineLen"
proof (induction ps arbitrary: w)
  case Nil
  then show ?case by simp
next
  case (Cons p ps)
  from base64_Write_refines [OF Cons.prems, of p] obtain w1 where
    w1: "base64_Write w p = Inr (w1, int (length p))"
    "b64_w w1 = b64_w w @ spec_base64_chunks (nat (b64_lineLen w)) p"
    "b64_lineLen w1 = int (spec_base64_column (nat (b64_lineLen w)) (length p))"
    "0 \<le> b64_lineLen w1" "b64_lineLen w1 \<le> maxLineLen"
    by blast
  from Cons.IH [OF w1(4,5)] obtain w' where
    w': "base64_Writes w1 ps = Inr w'"
    "b64_w w' = b64_w w1 @ spec_base64_stream (nat (b64_lineLen w1)) ps"
    "b64_lineLen w' = int (last (nat (b64_lineLen w1) # spec_base64_columns (nat (b64_lineLen w1)) ps))"
    "0 \<le> b64_lineLen w'" "b64_lineLen w' \<le> maxLineLen"
    by blast
  show ?case
    using w1 w' by (cases ps) (simp_all)
qed

text \<open>
  C5. Every sequence of \<open>Write\<close> calls on a fresh base64 line writer returns, and
  what it sends to the sink is what the spec describes: while the input overflows the
  line, exactly \<open>76 - column\<close> bytes followed by CRLF with the column back at 0, then the
  tail without a break. After the writes the column is the spec's column, is not negative
  and is at most 76; as this holds for every sequence, it holds between any two writes.
\<close>

theorem base64_Writes_wrap:
  "\<exists>w'. base64_Writes (newBase64LineWriter out) ps = Inr w' \<and>
     b64_w w' = out @ spec_base64_stream 0 ps \<and>
     b64_lineLen w' = int (last (0 # spec_base64_columns 0 ps)) \<and>
     0 \<le> b64_lineLen w' \<and> b64_lineLen w' \<le> maxLineLen"
  using base64_Writes_refines [of "newBase64LineWriter out" ps]
  by (simp add: newBase64LineWriter_def maxLineLen_def)

theorem base64_Writes_wrap_witness:
  "base64_Writes (newBase64LineWriter []) [replicate 100 (CHR ''a'')] =
     Inr \<lparr>b64_w = [Payload (replicate 76 (CHR ''a'')), Inserted crlf, Payload (replicate 24 (CHR ''a''))],
          b64_lineLen = 24\<rparr>"
proof -
  have c: "spec_base64_chunks 0 (replicate 100 (CHR ''a'')) =
      [Payload (replicate 76 (CHR ''a'')), Inserted crlf, Payload (replicate 24 (CHR ''a''))]"
    by (subst spec_base64_chunks.simps, subst spec_base64_chunks.simps) simp
  from base64_Writes_wrap [of "[]" "[replicate 100 (CHR ''a'')]"]
  show ?thesis
    by (auto simp: c spec_base64_column_def)
qed

subsection \<open>Soft line breaks of qpLineWriter\<close>

lemma not_hex_EQ: "\<not> is_hex EQ"
  by (simp add: is_hex_def EQ_def)

lemma bytes_nth: "wf_slice p \<Longrightarrow> j < len p \<Longrightarrow> bytes p ! j = backing p ! j"
  by (simp add: bytes_def)

lemma length_bytes: "wf_slice p \<Longrightarrow> length (bytes p) = len p"
  by (simp add: bytes_def wf_slice_def cap_def)

lemma no_split_at_EQ: "bs ! c = EQ \<Longrightarrow> \<not> splits_escape bs c"
proof -
  assume e: "bs ! c = EQ"
  have "\<not> escape_at bs (c - 1)" if "1 \<le> c"
  proof -
    have "c - 1 + 1 = c" using that by simp
    then show ?thesis using e not_hex_EQ by (auto simp: escape_at_def)
  qed
  moreover have "\<not> escape_at bs (c - 2)" if "2 \<le> c"
  proof -
    have "c - 2 + 2 = c" using that by simp
    then show ?thesis using e not_hex_EQ by (auto simp: escape_at_def)
  qed
  ultimately show ?thesis by (auto simp: splits_escape_def)
qed

lemma no_split_after_plain:
  "(1 \<le> c \<Longrightarrow> bs ! (c - 1) \<noteq> EQ) \<Longrightarrow> (2 \<le> c \<Longrightarrow> bs ! (c - 2) \<noteq> EQ) \<Longrightarrow>
   \<not> splits_escape bs c"
  by (auto simp: splits_escape_def escape_at_def)

lemma qp_toWrite_cut:
  assumes t: "qp_toWrite p l = Inr t" and wf: "wf_slice p"
  shows "0 \<le> t \<and> \<not> splits_escape (bytes p) (nat t) \<and> (l = 0 \<longrightarrow> 2 \<le> t)"
proof -
  let ?r = "maxLineLen - l"
  consider (a) "0 \<le> ?r - 2" "index p (?r - 2) = Inr EQ" "t = ?r - 2"
    | (b) "index p (?r - 1) = Inr EQ" "t = ?r - 1"
    | (c) "\<exists>c. index p (?r - 1) = Inr c \<and> c \<noteq> EQ" "t = ?r"
          "?r - 2 < 0 \<or> (\<exists>c. index p (?r - 2) = Inr c \<and> c \<noteq> EQ)"
    using t by (auto simp: qp_toWrite_def split: if_splits sum.splits bool.splits)
  then show ?thesis
  proof cases
    case a
    then have lt: "0 \<le> t" "nat t < len p" "backing p ! nat t = EQ"
      by (auto simp: index_def split: if_splits)
    then have "bytes p ! nat t = EQ" using wf by (simp add: bytes_nth)
    from no_split_at_EQ [OF this] show ?thesis
      using lt a by (auto simp: maxLineLen_def)
  next
    case b
    then have lt: "0 \<le> t" "nat t < len p" "backing p ! nat t = EQ"
      by (auto simp: index_def split: if_splits)
    then have "bytes p ! nat t = EQ" using wf by (simp add: bytes_nth)
    from no_split_at_EQ [OF this] show ?thesis
      using lt b by (auto simp: maxLineLen_def)
  next
    case c
    then obtain ch where ch: "index p (?r - 1) = Inr ch" "ch \<noteq> EQ" by blast
    then have lt: "1 \<le> t" "nat t - 1 < len p" "backing p ! (nat t - 1) \<noteq> EQ"
      using c(2) by (auto simp: index_def nat_diff_distrib split: if_splits)
    then have e1: "bytes p ! (nat t - 1) \<noteq> EQ" using wf by (simp add: bytes_nth)
    have e2: "bytes p ! (nat t - 2) \<noteq> EQ" if "2 \<le> nat t"
    proof -
      from that c(2) have "\<not> ?r - 2 < 0" by simp
      with c(3) obtain c2 where c2: "index p (?r - 2) = Inr c2" "c2 \<noteq> EQ" by blast
      then have "nat t - 2 < len p" "backing p ! (nat t - 2) \<noteq> EQ"
        using c(2) that by (auto simp: index_def nat_diff_distrib split: if_splits)
      then show ?thesis using wf by (simp add: bytes_nth)
    qed
    from no_split_after_plain [of "nat t" "bytes p"] e1 e2
    have "\<not> splits_escape (bytes p) (nat t)" by blast
    then show ?thesis using lt c(2) by (auto simp: maxLineLen_def)
  qed
qed


lemma soft_cuts_shift: "soft_cuts k ws = map (\<lambda>c. c + k) (soft_cuts 0 ws)"
proof (induction ws arbitrary: k)
  case Nil
  then show ?case by simp
next
  case (Cons w ws)
  show ?case
  proof (cases w)
    case (Payload bs)
    then show ?thesis
      using Cons.IH [of "k + length bs"] Cons.IH [of "length bs"] by (simp add: add.commute add.left_commute)
  next
    case (Inserted bs)
    then show ?thesis using Cons.IH [of k] by simp
  qed
qed

lemma escape_at_drop: "c \<le> length bs \<Longrightarrow> escape_at (drop c bs) j = escape_at bs (c + j)"
  by (auto simp: escape_at_def add.assoc)

lemma splits_escape_drop:
  "c \<le> length bs \<Longrightarrow> 2 \<le> d \<Longrightarrow> splits_escape (drop c bs) d = splits_escape bs (c + d)"
  by (simp add: splits_escape_def escape_at_drop)

lemma qp_step_return:
  "qp_step p l n out = QpReturn n' l' out' \<Longrightarrow>
     n' = n + int (len p) \<and> l' = l + int (len p) \<and> out' = out @ [Payload (bytes p)]"
  by (auto simp: qp_step_def Let_def split: if_splits sum.splits bool.splits)

lemma bytes_slice_to:
  "slice_to p k = Inr h \<Longrightarrow> slice_from p k = Inr p' \<Longrightarrow>
     bytes h = take (nat k) (bytes p) \<and> nat k \<le> len p \<and> 0 \<le> k \<and>
     p' = \<lparr>backing = drop (nat k) (backing p), len = len p - nat k\<rparr>"
  by (auto simp: slice_to_def slice_from_def bytes_def min_def split: if_splits)

lemma qp_step_next:
  assumes s: "qp_step p l n out = QpNext p' l' n' out'" and wf: "wf_slice p"
  shows "\<exists>c ext. c \<le> len p \<and> p' = \<lparr>backing = drop c (backing p), len = len p - c\<rparr> \<and>
           n' = n + int c \<and> l' = 0 \<and> out' = out @ Payload (take c (bytes p)) # ext \<and>
           (ext = [] \<or> ext = [Inserted newline] \<and> \<not> splits_escape (bytes p) c \<and> (l = 0 \<longrightarrow> 2 \<le> c))"
proof -
  have ge: "\<not> int (len p) < maxLineLen - l"
    using s by (auto simp: qp_step_def)
  obtain sl where sl: "slice_to p (maxLineLen - l + 2) = Inr sl"
    using s ge by (auto simp: qp_step_def split: sum.splits)
  define i where "i = indexLF (bytes sl)"
  obtain b where b: "qp_newline_cond p l i = Inr b"
    using s ge sl by (auto simp: qp_step_def i_def Let_def split: sum.splits)
  show ?thesis
  proof (cases b)
    case True
    then obtain h where h: "slice_to p (i + 1) = Inr h" "slice_from p (i + 1) = Inr p'"
      "n' = n + (i + 1)" "l' = 0" "out' = out @ [Payload (bytes h)]"
      using s ge sl b by (auto simp: qp_step_def i_def [symmetric] Let_def split: sum.splits)
    from bytes_slice_to [OF h(1,2)] show ?thesis
      using h(3-5) by (intro exI [of _ "nat (i + 1)"] exI [of _ "[]"]) simp
  next
    case False
    then obtain t h where t: "qp_toWrite p l = Inr t"
      and h: "slice_to p t = Inr h" "slice_from p t = Inr p'"
      "n' = n + t" "l' = 0" "out' = out @ [Payload (bytes h), Inserted newline]"
      using s ge sl b by (auto simp: qp_step_def i_def [symmetric] Let_def split: sum.splits)
    from qp_toWrite_cut [OF t wf] bytes_slice_to [OF h(1,2)] show ?thesis
      using h(3-5) by (intro exI [of _ "nat t"] exI [of _ "[Inserted newline]"]) auto
  qed
qed

lemma qp_loop_cuts:
  "qp_loop p l n out = Inr (n', l', out') \<Longrightarrow> wf_slice p \<Longrightarrow>
   \<exists>ext. out' = out @ ext \<and> payload ext = bytes p \<and> n' = n + int (len p) \<and>
     (\<forall>c \<in> set (soft_cuts 0 ext). \<not> splits_escape (bytes p) c \<and> (l = 0 \<longrightarrow> 2 \<le> c))"
proof (induction p l n out rule: qp_loop.induct)
  case (1 p lineLen n out)
  note wf = "1.prems"(2)
  have lb: "length (bytes p) = len p" using wf by (rule length_bytes)
  show ?case
  proof (cases "len p > 0")
    case False
    then show ?thesis using "1.prems"
      by (subst (asm) qp_loop.simps) (auto simp: bytes_def)
  next
    case True
    show ?thesis
    proof (cases "qp_step p lineLen n out")
      case (QpReturn n1 l1 out1)
      from qp_step_return [OF this] show ?thesis
        using "1.prems"(1) True QpReturn by (subst (asm) qp_loop.simps) auto
    next
      case (QpPanic e)
      then show ?thesis using "1.prems"(1) True by (subst (asm) qp_loop.simps) auto
    next
      case (QpNext p1 l1 n1 out1)
      from qp_step_next [OF this wf] obtain c ext where
        c: "c \<le> len p" "p1 = \<lparr>backing = drop c (backing p), len = len p - c\<rparr>"
          "n1 = n + int c" "l1 = 0" "out1 = out @ Payload (take c (bytes p)) # ext"
        and e: "ext = [] \<or> ext = [Inserted newline] \<and> \<not> splits_escape (bytes p) c \<and>
                  (lineLen = 0 \<longrightarrow> 2 \<le> c)"
        by blast
      have wf1: "wf_slice p1" using c(1,2) wf by (simp add: wf_slice_def cap_def)
      have b1: "bytes p1 = drop c (bytes p)" using c(2) by (simp add: bytes_def drop_take)
      have r: "qp_loop p1 l1 n1 out1 = Inr (n', l', out')"
        using "1.prems"(1) True QpNext by (subst (asm) qp_loop.simps) simp
      from "1.IH" [OF True QpNext r wf1] obtain ext2 where
        x: "out' = out1 @ ext2" "payload ext2 = bytes p1" "n' = n1 + int (len p1)"
        and cs: "\<forall>d \<in> set (soft_cuts 0 ext2). \<not> splits_escape (bytes p1) d \<and> (l1 = 0 \<longrightarrow> 2 \<le> d)"
        by blast
      have lt: "length (take c (bytes p)) = c" using c(1) lb by simp
      have shifted: "\<not> splits_escape (bytes p) (d + c) \<and> 2 \<le> d + c"
        if "d \<in> set (soft_cuts 0 ext2)" for d
      proof -
        from cs that c(4) have d: "\<not> splits_escape (bytes p1) d" "2 \<le> d" by auto
        from splits_escape_drop [of c "bytes p" d] c(1) lb d b1
        show ?thesis by (simp add: add.commute)
      qed
      let ?ext = "Payload (take c (bytes p)) # ext @ ext2"
      have o: "out' = out @ ?ext" using x(1) c(5) by simp
      have pl: "payload ?ext = bytes p"
        using e x(2) b1 by (auto simp: )
      have nn: "n' = n + int (len p)" using x(3) c(1,2,3) by simp
      have cuts: "set (soft_cuts 0 ?ext) \<subseteq>
          (if ext = [] then {} else {c}) \<union> (\<lambda>d. d + c) ` set (soft_cuts 0 ext2)"
        using e lt soft_cuts_shift [of c ext2] by auto
      have "\<forall>k \<in> set (soft_cuts 0 ?ext).
          \<not> splits_escape (bytes p) k \<and> (lineLen = 0 \<longrightarrow> 2 \<le> k)"
      proof
        fix k assume "k \<in> set (soft_cuts 0 ?ext)"
        with cuts consider "ext \<noteq> []" "k = c" | d where "d \<in> set (soft_cuts 0 ext2)" "k = d + c"
          by (auto split: if_splits)
        then show "\<not> splits_escape (bytes p) k \<and> (lineLen = 0 \<longrightarrow> 2 \<le> k)"
        proof cases
          case 1
          then show ?thesis using e by auto
        next
          case 2
          then show ?thesis using shifted by auto
        qed
      qed
      with o pl nn show ?thesis by blast
    qed
  qed
qed


text \<open>
  Within one call: when a call of \<open>qpLineWriter.Write\<close> returns, it has passed on the
  bytes of \<open>p\<close> unchanged and in order, and none of the soft line breaks it inserted
  stands one or two bytes after the \<open>=\<close> of an escape triplet that lies in \<open>p\<close>. The
  column the call starts at is arbitrary. Nothing is said here of a triplet whose \<open>=\<close>
  was written by an earlier call.
\<close>

theorem qp_Write_no_split_escape:
  assumes "qp_Write w p = Inr (w', n)" and "wf_slice p"
  shows "\<exists>ext. qp_w w' = qp_w w @ ext \<and> payload ext = bytes p \<and> n = int (len p) \<and>
           (\<forall>c \<in> set (soft_cuts 0 ext). \<not> splits_escape (bytes p) c)"
proof -
  from assms(1) obtain l' where
    "qp_loop p (qp_lineLen w) 0 (qp_w w) = Inr (n, l', qp_w w')"
    by (auto simp: qp_Write_def split: sum.splits)
  from qp_loop_cuts [OF this assms(2)] show ?thesis by auto
qed

theorem qp_Write_no_split_escape_witness:
  "qp_Write (newQpLineWriter []) (mk_slice (replicate 74 (CHR ''a'') @ ''=3Dabc'')) =
     Inr (\<lparr>qp_w = [Payload (replicate 74 (CHR ''a'')), Inserted newline, Payload ''=3Dabc''],
           qp_lineLen = 6\<rparr>, 80) \<and>
   wf_slice (mk_slice (replicate 74 (CHR ''a'') @ ''=3Dabc'')) \<and>
   soft_cuts 0 [Payload (replicate 74 (CHR ''a'')), Inserted newline, Payload ''=3Dabc''] = [74] \<and>
   escape_at (bytes (mk_slice (replicate 74 (CHR ''a'') @ ''=3Dabc''))) 74 \<and>
   splits_escape (bytes (mk_slice (replicate 74 (CHR ''a'') @ ''=3Dabc''))) 76 \<and>
   \<not> splits_escape (bytes (mk_slice (replicate 74 (CHR ''a'') @ ''=3Dabc''))) 74"
proof -
  let ?p = "mk_slice (replicate 74 (CHR ''a'') @ ''=3Dabc'')"
  let ?out = "[Payload (replicate 74 (CHR ''a'')), Inserted newline, Payload ''=3Dabc'']"
  have r: "qp_Write (newQpLineWriter []) ?p = Inr (\<lparr>qp_w = ?out, qp_lineLen = 6\<rparr>, 80)"
    by code_simp
  have wf: "wf_slice ?p" by code_simp
  have c: "soft_cuts 0 ?out = [74]" by simp
  have e: "escape_at (bytes ?p) 74" by code_simp
  have s: "splits_escape (bytes ?p) 76" by code_simp
  from qp_Write_no_split_escape [OF r wf] obtain ext where
    x: "qp_w \<lparr>qp_w = ?out, qp_lineLen = 6\<rparr> = qp_w (newQpLineWriter []) @ ext"
    and b: "\<forall>c \<in> set (soft_cuts 0 ext). \<not> splits_escape (bytes ?p) c"
    by blast
  from x have "ext = ?out" by (simp add: newQpLineWriter_def)
  with b have "\<forall>c \<in> set (soft_cuts 0 ?out). \<not> splits_escape (bytes ?p) c" by simp
  then have "\<not> splits_escape (bytes ?p) 74" unfolding c by simp
  then show ?thesis using r wf c e s by blast
qed

section \<open>Properties of the structure classifier\<close>

text \<open>
  C3. \<open>hasMixedPart\<close>, \<open>hasRelatedPart\<close> and \<open>hasAlternativePart\<close> compute the
  spec's three formulas of the counts of parts, embedded files and attachments.
\<close>

theorem hasParts_formulas:
  "hasMixedPart msg =
     spec_needsMixed (length (parts msg)) (length (embedded msg)) (length (attachments msg)) \<and>
   hasRelatedPart msg =
     spec_needsRelated (length (parts msg)) (length (embedded msg)) (length (attachments msg)) \<and>
   hasAlternativePart msg =
     spec_needsAlternative (length (parts msg)) (length (embedded msg)) (length (attachments msg))"
  by (simp add: hasMixedPart_def hasRelatedPart_def hasAlternativePart_def
      spec_needsMixed_def spec_needsRelated_def spec_needsAlternative_def)

theorem hasParts_formulas_witness:
  "hasMixedPart (msg_with_counts 1 0 1) \<and> \<not> hasMixedPart (msg_with_counts 0 3 1) \<and>
   hasMixedPart (msg_with_counts 0 0 2) \<and> \<not> hasMixedPart (msg_with_counts 3 3 0) \<and>
   hasRelatedPart (msg_with_counts 1 1 0) \<and> \<not> hasRelatedPart (msg_with_counts 0 1 3) \<and>
   hasRelatedPart (msg_with_counts 0 2 0) \<and> \<not> hasRelatedPart (msg_with_counts 3 0 3) \<and>
   hasAlternativePart (msg_with_counts 2 0 0) \<and> \<not> hasAlternativePart (msg_with_counts 1 3 3)"
  using hasParts_formulas [of "msg_with_counts 1 0 1"] hasParts_formulas [of "msg_with_counts 0 3 1"]
    hasParts_formulas [of "msg_with_counts 0 0 2"] hasParts_formulas [of "msg_with_counts 3 3 0"]
    hasParts_formulas [of "msg_with_counts 1 1 0"] hasParts_formulas [of "msg_with_counts 0 1 3"]
    hasParts_formulas [of "msg_with_counts 0 2 0"] hasParts_formulas [of "msg_with_counts 3 0 3"]
    hasParts_formulas [of "msg_with_counts 2 0 0"] hasParts_formulas [of "msg_with_counts 1 3 3"]
  by (simp add: msg_with_counts_def spec_needsMixed_def spec_needsRelated_def spec_needsAlternative_def)

section \<open>Where qpLineWriter.Write leaves its documentation\<close>

text \<open>
  C1. The claim bounds every emitted line, with its trailing soft-break \<open>=\<close>, by 76
  characters. Writing 78 bytes \<open>a\<close> to a fresh quoted-printable line writer emits a
  first line of 77 characters: 76 bytes of input and the \<open>=\<close> of the soft break.
\<close>

theorem qp_Write_line_of_77:
  "map length (crlf_lines (flat (case qp_Write (newQpLineWriter []) (mk_slice (replicate 78 (CHR ''a''))) of Inr (w, n) \<Rightarrow> qp_w w))) = [77, 2]"
  by code_simp

text \<open>
  C2. The claim says no escape triplet is ever split across a line boundary. The writer
  keeps only the column between calls. Writing 74 bytes \<open>a\<close> and \<open>=\<close> leaves the
  column at 75; writing \<open>41bb\<close> next, the test of line 270 is skipped (its index would
  be negative), \<open>p[0]\<close> is not \<open>=\<close>, and one byte is written before the soft break:
  the output lines are \<open>a...a=4=\<close> and \<open>1bb\<close>, and the triplet \<open>=41\<close> of the input
  is cut after its first digit.
\<close>

theorem qp_Writes_split_across_calls:
  "qp_Writes (newQpLineWriter []) [mk_slice (replicate 74 (CHR ''a'') @ ''=''), mk_slice ''41bb''] =
     Inr \<lparr>qp_w = [Payload (replicate 74 (CHR ''a'') @ ''=''), Payload ''4'', Inserted newline,
                  Payload ''1bb''],
          qp_lineLen = 3\<rparr> \<and>
   crlf_lines (flat [Payload (replicate 74 (CHR ''a'') @ ''=''), Payload ''4'', Inserted newline,
                     Payload ''1bb'']) =
     [replicate 74 (CHR ''a'') @ ''=4='', ''1bb''] \<and>
   payload [Payload (replicate 74 (CHR ''a'') @ ''=''), Payload ''4'', Inserted newline,
            Payload ''1bb''] = replicate 74 (CHR ''a'') @ ''=41bb'' \<and>
   soft_cuts 0 [Payload (replicate 74 (CHR ''a'') @ ''=''), Payload ''4'', Inserted newline,
                Payload ''1bb''] = [76] \<and>
   escape_at (replicate 74 (CHR ''a'') @ ''=41bb'') 74 \<and>
   splits_escape (replicate 74 (CHR ''a'') @ ''=41bb'') 76"
  by code_simp

text \<open>
  C6. The claim says every slice expression of \<open>qpLineWriter.Write\<close> stays within
  \<open>p\<close>. For a slice of 76 bytes whose capacity is 76, at column 0, the expression
  \<open>p[:maxLineLen-w.lineLen+2]\<close> of line 257 asks for 78 bytes and panics.
\<close>

theorem qp_Write_slice_panic:
  "qp_Write (newQpLineWriter []) (mk_slice (replicate 76 (CHR ''a''))) = Inl SliceBounds"
  by code_simp

section \<open>Properties of the message writer\<close>

lemma frameK_refl: "frameK K st st"
  by (simp add: frameK_def)

lemma frameK_trans: "frameK K st st' \<Longrightarrow> frameK K' st' st'' \<Longrightarrow> frameK (K \<union> K') st st''"
  by (simp add: frameK_def)

lemma frameK_mono: "frameK K st st' \<Longrightarrow> K \<subseteq> K' \<Longrightarrow> frameK K' st st'"
  by (auto simp: frameK_def)

lemma get_map_set_map_field:
  "get_map (set_map_field s a k v) b =
     (if b = a \<and> a < length (maps s) then (get_map s a)(k \<mapsto> v) else get_map s b)"
  by (auto simp: get_map_def set_map_field_def)

lemma set_map_field_other [simp]:
  "length (maps (set_map_field s a k v)) = length (maps s)"
  "bufs (set_map_field s a k v) = bufs s"
  "pool (set_map_field s a k v) = pool s"
  "rnd (set_map_field s a k v) = rnd s"
  by (simp_all add: set_map_field_def)

lemma buf_write_other [simp]:
  "maps (buf_write s a bs) = maps s"
  "length (bufs (buf_write s a bs)) = length (bufs s)"
  "b \<noteq> a \<Longrightarrow> bufs (buf_write s a bs) ! b = bufs s ! b"
  "pool (buf_write s a bs) = pool s"
  "rnd (buf_write s a bs) = rnd s"
  "get_map (buf_write s a bs) = get_map s"
  by (simp_all add: buf_write_def get_map_def fun_eq_iff)

lemma frameK_set_map_field:
  "frameK {k} (s, w) (set_map_field s (mw_header w) k v, w')" if "mw_header w' = mw_header w" "mw_buf w' = mw_buf w"
  using that by (simp add: frameK_def get_map_set_map_field)

lemma frameK_buf_write:
  "mw_header w' = mw_header w \<Longrightarrow> mw_buf w' = mw_buf w \<Longrightarrow>
   frameK {} (s, w) (buf_write s (mw_buf w) bs, w')"
  by (simp add: frameK_def)

lemma wf_writer_iff:
  "wf_writer w =
     (length (writers w) = 3 \<and> unat (depth w) \<le> 3 \<and>
      (\<forall>i < unat (depth w). writers w ! i \<noteq> None))"
  by (auto simp: wf_writer_def list_all_iff)

lemma unat_depth_pred: "(d :: 8 word) \<noteq> 0 \<Longrightarrow> unat (d - 1) = unat d - 1 \<and> 0 < unat d"
  by (simp add: unat_minus_one unat_gt_0)

lemma unat_depth_succ: "unat (d :: 8 word) < 3 \<Longrightarrow> unat (d + 1) = unat d + 1"
  by (simp add: unat_word_ariths unat_arith_simps)

lemma writer_at_wf:
  "wf_writer w \<Longrightarrow> depth w \<noteq> 0 \<Longrightarrow> \<exists>mw. writer_at w (depth w - 1) = Inr mw"
  using unat_depth_pred [of "depth w"]
  by (auto simp: wf_writer_iff writer_at_def split: option.splits)

lemma writer_at_Inr:
  "wf_writer w \<Longrightarrow> writer_at w (depth w - 1) = Inr mw \<Longrightarrow>
     depth w \<noteq> 0 \<and> writers w ! (unat (depth w) - 1) = Some mw"
proof -
  assume wf: "wf_writer w" and a: "writer_at w (depth w - 1) = Inr mw"
  have "depth w \<noteq> 0"
  proof
    assume "depth w = 0"
    then have "unat (depth w - 1) = 255" by (simp add: unsigned_minus_1_eq_mask mask_eq_exp_minus_1)
    with a wf show False by (simp add: writer_at_def wf_writer_iff)
  qed
  with a unat_depth_pred [of "depth w"] show ?thesis
    by (auto simp: writer_at_def split: if_splits option.splits)
qed

lemma createPart_effect:
  assumes wf: "wf_writer w" and r: "createPart e h (s, w) = Inr (s', w')"
  shows "frameK {} (s, w) (s', w') \<and> wf_writer w' \<and> depth w' = depth w \<and>
         partWriter w' \<noteq> None \<and> depth w \<noteq> 0 \<and>
         (\<forall>i. writers w ! i \<noteq> None \<longrightarrow> writers w' ! i \<noteq> None)"
proof -
  from r obtain mw where mw: "writer_at w (depth w - 1) = Inr mw"
    and s': "s' = buf_write s (mw_buf w) (mp_CreatePart_bytes e mw h)"
    and w': "w' = w\<lparr>writers := (writers w)[unat (depth w - 1) := Some (mw\<lparr>has_part := True\<rparr>)],
                    partWriter := Some (unat (depth w - 1))\<rparr>"
    by (auto simp: createPart_def bindP_def split: sum.splits)
  from writer_at_Inr [OF wf mw] have d: "depth w \<noteq> 0" by simp
  have "wf_writer w'" using wf d unat_depth_pred [OF d]
    by (auto simp: w' wf_writer_iff nth_list_update)
  moreover have "frameK {} (s, w) (s', w')"
    unfolding s' by (rule frameK_buf_write) (simp_all add: w')
  moreover have "\<forall>i. writers w ! i \<noteq> None \<longrightarrow> writers w' ! i \<noteq> None"
    using wf d unat_depth_pred [OF d] by (auto simp: w' wf_writer_iff nth_list_update)
  ultimately show ?thesis using d by (simp add: w')
qed

lemma createPart_total:
  "wf_writer w \<Longrightarrow> depth w \<noteq> 0 \<Longrightarrow> \<exists>st'. createPart e h (s, w) = Inr st'"
  using writer_at_wf [of w] by (auto simp: createPart_def bindP_def)

lemma openMultipart_unfold:
  "unat (depth w) < length (writers w) \<Longrightarrow>
   openMultipart e mimeType (s, w) =
     (if depth w = 0
      then Inr (set_map_field (s\<lparr>rnd := Suc (rnd s)\<rparr>) (mw_header w) ''Content-Type''
                  [multipart_contentType mimeType (random_boundary e (rnd s))],
                w\<lparr>writers := (writers w)[unat (depth w) :=
                     Some \<lparr>boundary = random_boundary e (rnd s), has_part = False\<rparr>],
                  depth := depth w + 1\<rparr>)
      else bindP (createPart e
                    [(''Content-Type'',
                      [multipart_contentType mimeType (random_boundary e (rnd s))])]
                    (s\<lparr>rnd := Suc (rnd s)\<rparr>,
                     w\<lparr>writers := (writers w)[unat (depth w) :=
                        Some \<lparr>boundary = random_boundary e (rnd s), has_part = False\<rparr>]\<rparr>))
             (\<lambda>(s2, w2). Inr (s2, w2\<lparr>depth := depth w2 + 1\<rparr>)))"
  by (simp add: openMultipart_def mp_NewWriter_def Let_def)

lemma openMultipart_effect:
  assumes wf: "wf_writer w" and r: "openMultipart e mimeType (s, w) = Inr (s', w')"
  shows "frameK {''Content-Type''} (s, w) (s', w') \<and> wf_writer w' \<and>
         unat (depth w) < 3 \<and> unat (depth w') = unat (depth w) + 1 \<and>
         (depth w \<noteq> 0 \<longrightarrow> frameK {} (s, w) (s', w'))"
proof -
  have lt: "unat (depth w) < 3"
    using r wf by (auto simp: openMultipart_def wf_writer_iff split: if_splits)
  then have ltl: "unat (depth w) < length (writers w)" using wf by (simp add: wf_writer_iff)
  define mw where "mw = \<lparr>boundary = random_boundary e (rnd s), has_part = False\<rparr>"
  define s1 where "s1 = s\<lparr>rnd := Suc (rnd s)\<rparr>"
  define w1 where "w1 = w\<lparr>writers := (writers w)[unat (depth w) := Some mw]\<rparr>"
  have s1: "maps s1 = maps s" "bufs s1 = bufs s" "pool s1 = pool s" "get_map s1 = get_map s"
    by (simp_all add: s1_def get_map_def fun_eq_iff)
  have f1: "frameK {} (s, w) (s1, w1)"
    by (simp add: frameK_def s1 w1_def)
  have wf1: "wf_writer w1"
    using wf by (auto simp: w1_def wf_writer_iff nth_list_update)
  have full: "\<forall>i < unat (depth w) + 1. writers w1 ! i \<noteq> None"
    using wf lt by (auto simp: w1_def wf_writer_iff nth_list_update less_Suc_eq)
  show ?thesis
  proof (cases "depth w = 0")
    case True
    then have "s' = set_map_field s1 (mw_header w1) ''Content-Type''
                 [multipart_contentType mimeType (boundary mw)]"
      and w': "w' = w1\<lparr>depth := depth w1 + 1\<rparr>"
      using r ltl by (auto simp: openMultipart_unfold mw_def s1_def w1_def)
    then have "frameK {''Content-Type''} (s1, w1) (s', w')"
      using frameK_set_map_field [of w' w1 "''Content-Type''" s1] by simp
    from frameK_trans [OF f1 this] have "frameK {''Content-Type''} (s, w) (s', w')" by simp
    moreover have "wf_writer w'"
      using full wf1 lt unat_depth_succ [OF lt] by (simp add: w' wf_writer_iff w1_def)
    ultimately show ?thesis
      using True lt unat_depth_succ [OF lt] by (simp add: w' w1_def)
  next
    case False
    then obtain s2 w2 where
      c: "createPart e [(''Content-Type'', [multipart_contentType mimeType (boundary mw)])]
            (s1, w1) = Inr (s2, w2)"
      and s': "s' = s2" and w': "w' = w2\<lparr>depth := depth w2 + 1\<rparr>"
      using r ltl by (auto simp: openMultipart_unfold mw_def s1_def w1_def bindP_def
          split: sum.splits)
    from createPart_effect [OF wf1 c] have
      f2: "frameK {} (s1, w1) (s2, w2)" and wf2: "wf_writer w2" and d2: "depth w2 = depth w1"
      and keep: "\<forall>i. writers w1 ! i \<noteq> None \<longrightarrow> writers w2 ! i \<noteq> None"
      by simp_all
    have "\<forall>i < unat (depth w) + 1. writers w2 ! i \<noteq> None"
      using full keep by blast
    then have "wf_writer w'"
      using wf2 lt unat_depth_succ [OF lt] d2 by (simp add: w' wf_writer_iff w1_def)
    moreover have "frameK {} (s, w) (s', w')"
      using frameK_trans [OF f1 f2] by (simp add: s' w' frameK_def)
    ultimately show ?thesis
      using lt unat_depth_succ [OF lt] d2 frameK_mono [of "{}" "(s, w)" "(s', w')" "{''Content-Type''}"]
      by (simp add: w' w1_def)
  qed
qed

lemma openMultipart_total:
  "wf_writer w \<Longrightarrow> unat (depth w) < 3 \<Longrightarrow> \<exists>st'. openMultipart e mimeType (s, w) = Inr st'"
proof -
  assume wf: "wf_writer w" and lt: "unat (depth w) < 3"
  define mw where "mw = \<lparr>boundary = random_boundary e (rnd s), has_part = False\<rparr>"
  define s1 where "s1 = s\<lparr>rnd := Suc (rnd s)\<rparr>"
  define w1 where "w1 = w\<lparr>writers := (writers w)[unat (depth w) := Some mw]\<rparr>"
  have wf1: "wf_writer w1"
    using wf by (auto simp: w1_def wf_writer_iff nth_list_update)
  show ?thesis
  proof (cases "depth w = 0")
    case True
    then show ?thesis using wf lt
      by (auto simp: openMultipart_unfold wf_writer_iff)
  next
    case False
    then have "depth w1 \<noteq> 0" by (simp add: w1_def)
    from createPart_total [OF wf1 this, of e
        "[(''Content-Type'', [multipart_contentType mimeType (random_boundary e (rnd s))])]" s1]
    show ?thesis using wf lt False
      by (auto simp: openMultipart_unfold wf_writer_iff bindP_def mw_def s1_def w1_def
          split: sum.splits)
  qed
qed

lemma closeMultipart_effect:
  assumes wf: "wf_writer w" and r: "closeMultipart (s, w) = Inr (s', w')"
  shows "frameK {} (s, w) (s', w') \<and> wf_writer w' \<and> unat (depth w') = unat (depth w) - 1"
proof (cases "depth w = 0")
  case True
  then show ?thesis using r wf by (simp add: closeMultipart_def frameK_refl)
next
  case False
  then obtain mw where mw: "writer_at w (depth w - 1) = Inr mw"
    and s': "s' = buf_write s (mw_buf w) (mp_Close_bytes mw)"
    and w': "w' = w\<lparr>writers := (writers w)[unat (depth w - 1) := Some (mw\<lparr>has_part := False\<rparr>)],
                    depth := depth w - 1\<rparr>"
    using r by (auto simp: closeMultipart_def bindP_def word_gt_0 split: sum.splits)
  have "wf_writer w'"
    using wf unat_depth_pred [OF False] by (auto simp: w' wf_writer_iff nth_list_update)
  moreover have "frameK {} (s, w) (s', w')"
    unfolding s' by (rule frameK_buf_write) (simp_all add: w')
  ultimately show ?thesis using unat_depth_pred [OF False] by (simp add: w')
qed

lemma closeMultipart_total: "wf_writer w \<Longrightarrow> \<exists>st'. closeMultipart (s, w) = Inr st'"
  using writer_at_wf [of w] by (auto simp: closeMultipart_def bindP_def word_gt_0)

lemma fold_set_fields_frame:
  "frameK (fst ` set h) (s, w)
     (fold (\<lambda>(field, val) s'. set_map_field s' (mw_header w) field val) h s, w)"
proof (induction h arbitrary: s)
  case Nil
  then show ?case by (simp add: frameK_refl)
next
  case (Cons x h)
  obtain k v where x: "x = (k, v)" by (cases x)
  have "frameK {k} (s, w) (set_map_field s (mw_header w) k v, w)"
    by (rule frameK_set_map_field) simp_all
  from frameK_trans [OF this Cons.IH [of "set_map_field s (mw_header w) k v"]]
  show ?case by (simp add: x)
qed

lemma writeHeader_effect:
  assumes wf: "wf_writer w" and r: "writeHeader e h (s, w) = Inr (s', w')"
  shows "frameK (fst ` set h) (s, w) (s', w') \<and> wf_writer w' \<and> depth w' = depth w \<and>
         (depth w \<noteq> 0 \<longrightarrow> frameK {} (s, w) (s', w') \<and> partWriter w' \<noteq> None)"
proof (cases "depth w = 0")
  case True
  then show ?thesis using r wf fold_set_fields_frame [of h s w]
    by (auto simp: writeHeader_def)
next
  case False
  then have "createPart e h (s, w) = Inr (s', w')" using r by (simp add: writeHeader_def)
  from createPart_effect [OF wf this] show ?thesis
    using frameK_mono [of "{}" "(s, w)" "(s', w')" "fst ` set h"] by simp
qed

lemma writeHeader_total: "wf_writer w \<Longrightarrow> \<exists>st'. writeHeader e h (s, w) = Inr st'"
  using createPart_total [of w e h s] by (auto simp: writeHeader_def)

lemma writeBody_effect:
  "writeBody e bs enc (s, w) = Inr (s', w') \<Longrightarrow> frameK {} (s, w) (s', w') \<and> w' = w"
  using frameK_buf_write [of w w s]
  by (auto simp: writeBody_def bindP_def frameK_refl split: sum.splits if_splits)

lemma writeBody_total:
  "body_writes e bs enc = Inr ws \<Longrightarrow> depth w = 0 \<or> partWriter w \<noteq> None \<Longrightarrow>
     \<exists>st'. writeBody e bs enc (s, w) = Inr st'"
  by (auto simp: writeBody_def bindP_def)

lemma mw_write_effect:
  assumes wf: "wf_writer w" and r: "mw_write e h bs enc (s, w) = Inr (s', w')"
  shows "frameK (fst ` set h) (s, w) (s', w') \<and> wf_writer w' \<and> depth w' = depth w \<and>
         (depth w \<noteq> 0 \<longrightarrow> frameK {} (s, w) (s', w'))"
proof -
  from r obtain s1 w1 where h: "writeHeader e h (s, w) = Inr (s1, w1)"
    and b: "writeBody e bs enc (s1, w1) = Inr (s', w')"
    by (auto simp: mw_write_def bindP_def split: sum.splits)
  from writeHeader_effect [OF wf h] writeBody_effect [OF b]
  show ?thesis
    using frameK_trans [of "fst ` set h" "(s, w)" "(s1, w1)" "{}" "(s', w')"]
      frameK_trans [of "{}" "(s, w)" "(s1, w1)" "{}" "(s', w')"]
    by auto
qed

lemma mw_write_total:
  assumes wf: "wf_writer w" and b: "body_writes e bs enc = Inr ws"
  shows "\<exists>st'. mw_write e h bs enc (s, w) = Inr st'"
proof -
  from writeHeader_total [OF wf] obtain s1 w1 where h: "writeHeader e h (s, w) = Inr (s1, w1)"
    by fastforce
  from writeHeader_effect [OF wf h] have "depth w1 = 0 \<or> partWriter w1 \<noteq> None" by auto
  from writeBody_total [OF b this] show ?thesis
    using h by (auto simp: mw_write_def bindP_def)
qed


lemma file_header_keys: "fst ` set (file_header e f isAttachment) \<subseteq> file_keys"
  by (auto simp: file_header_def file_keys_def)

lemma part_header_keys: "fst ` set (part_header e msg p) = part_keys"
  by (auto simp: part_header_def part_keys_def)

lemma addFiles_effect:
  "wf_writer w \<Longrightarrow> addFiles e files isAttachment (s, w) = Inr (s', w') \<Longrightarrow>
     frameK file_keys (s, w) (s', w') \<and> wf_writer w' \<and> depth w' = depth w \<and>
     (depth w \<noteq> 0 \<longrightarrow> frameK {} (s, w) (s', w'))"
proof (induction files arbitrary: s w)
  case Nil
  then show ?case by (simp add: frameK_refl)
next
  case (Cons f files)
  from Cons.prems(2) obtain s1 w1 where
    a: "mw_write e (file_header e f isAttachment) (Content f) (file_encoding f) (s, w) = Inr (s1, w1)"
    and b: "addFiles e files isAttachment (s1, w1) = Inr (s', w')"
    by (auto simp: bindP_def split: sum.splits)
  from mw_write_effect [OF Cons.prems(1) a] have
    f1: "frameK (fst ` set (file_header e f isAttachment)) (s, w) (s1, w1)"
    and wf1: "wf_writer w1" and d1: "depth w1 = depth w"
    and z1: "depth w \<noteq> 0 \<longrightarrow> frameK {} (s, w) (s1, w1)"
    by simp_all
  from Cons.IH [OF wf1 b] have
    f2: "frameK file_keys (s1, w1) (s', w')" and wf2: "wf_writer w'" and d2: "depth w' = depth w1"
    and z2: "depth w1 \<noteq> 0 \<longrightarrow> frameK {} (s1, w1) (s', w')"
    by simp_all
  have "frameK file_keys (s, w) (s1, w1)"
    using frameK_mono [OF f1 file_header_keys] .
  from frameK_trans [OF this f2] have "frameK file_keys (s, w) (s', w')" by simp
  moreover have "depth w \<noteq> 0 \<longrightarrow> frameK {} (s, w) (s', w')"
    using z1 z2 d1 frameK_trans [of "{}" "(s, w)" "(s1, w1)" "{}" "(s', w')"] by auto
  ultimately show ?case using wf2 d1 d2 by simp
qed

lemma run_step_effect:
  assumes wf: "wf_writer w" and r: "run_step e msg x (s, w) = Inr (s', w')"
  shows "frameK (part_keys \<union> file_keys) (s, w) (s', w') \<and> wf_writer w' \<and>
         unat (depth w') = depth_after (unat (depth w)) [x] \<and>
         (\<not> is_WritePart x \<longrightarrow> frameK file_keys (s, w) (s', w')) \<and>
         (is_WritePart x \<and> depth w \<noteq> 0 \<longrightarrow> frameK {} (s, w) (s', w'))"
proof (cases x)
  case (OpenMultipart mimeType)
  with r have "openMultipart e mimeType (s, w) = Inr (s', w')" by simp
  from openMultipart_effect [OF wf this] have
    f: "frameK {''Content-Type''} (s, w) (s', w')" and rest: "wf_writer w'"
      "unat (depth w') = unat (depth w) + 1"
    by simp_all
  have "frameK file_keys (s, w) (s', w')"
    by (rule frameK_mono [OF f]) (simp add: file_keys_def)
  then show ?thesis using rest OpenMultipart frameK_mono [of file_keys _ _ "part_keys \<union> file_keys"]
    by auto
next
  case CloseMultipart
  with r have "closeMultipart (s, w) = Inr (s', w')" by simp
  from closeMultipart_effect [OF wf this] have
    f: "frameK {} (s, w) (s', w')" and rest: "wf_writer w'"
      "unat (depth w') = unat (depth w) - 1"
    by simp_all
  show ?thesis using rest CloseMultipart frameK_mono [OF f, of file_keys]
      frameK_mono [OF f, of "part_keys \<union> file_keys"]
    by auto
next
  case (WritePart p)
  with r obtain bs where
    "mw_write e (part_header e msg p) bs (encoding msg) (s, w) = Inr (s', w')"
    by (auto simp: bindP_def split: sum.splits)
  from mw_write_effect [OF wf this] have
    f: "frameK part_keys (s, w) (s', w')" and rest: "wf_writer w'" "depth w' = depth w"
      "depth w \<noteq> 0 \<longrightarrow> frameK {} (s, w) (s', w')"
    by (simp_all add: part_header_keys)
  show ?thesis using rest WritePart frameK_mono [OF f, of "part_keys \<union> file_keys"]
    by auto
next
  case (AddFiles files isAttachment)
  with r have "addFiles e files isAttachment (s, w) = Inr (s', w')" by simp
  from addFiles_effect [OF wf this] have
    f: "frameK file_keys (s, w) (s', w')" and rest: "wf_writer w'" "depth w' = depth w"
    by simp_all
  show ?thesis using rest AddFiles f frameK_mono [OF f, of "part_keys \<union> file_keys"]
    by auto
qed

lemma depth_after_append: "depth_after d (xs @ ys) = depth_after (depth_after d xs) ys"
  by (induction d xs rule: depth_after.induct) simp_all


lemma run_steps_effect:
  "wf_writer w \<Longrightarrow> run_steps e msg xs (s, w) = Inr (s', w') \<Longrightarrow>
     frameK (part_keys \<union> file_keys) (s, w) (s', w') \<and> wf_writer w' \<and>
     unat (depth w') = depth_after (unat (depth w)) xs \<and>
     (list_all (\<lambda>x. \<not> is_WritePart x) xs \<longrightarrow> frameK file_keys (s, w) (s', w'))"
proof (induction xs arbitrary: s w)
  case Nil
  then show ?case by (simp add: frameK_refl)
next
  case (Cons x xs)
  from Cons.prems(2) obtain s1 w1 where
    a: "run_step e msg x (s, w) = Inr (s1, w1)"
    and b: "run_steps e msg xs (s1, w1) = Inr (s', w')"
    by (auto simp: bindP_def split: sum.splits)
  from run_step_effect [OF Cons.prems(1) a] have
    f1: "frameK (part_keys \<union> file_keys) (s, w) (s1, w1)" and wf1: "wf_writer w1"
    and d1: "unat (depth w1) = depth_after (unat (depth w)) [x]"
    and n1: "\<not> is_WritePart x \<longrightarrow> frameK file_keys (s, w) (s1, w1)"
    by simp_all
  from Cons.IH [OF wf1 b] have
    f2: "frameK (part_keys \<union> file_keys) (s1, w1) (s', w')" and wf2: "wf_writer w'"
    and d2: "unat (depth w') = depth_after (unat (depth w1)) xs"
    and n2: "list_all (\<lambda>x. \<not> is_WritePart x) xs \<longrightarrow> frameK file_keys (s1, w1) (s', w')"
    by simp_all
  have d: "unat (depth w') = depth_after (unat (depth w)) (x # xs)"
    using d1 d2 depth_after_append [of "unat (depth w)" "[x]" xs] by simp
  have "frameK (part_keys \<union> file_keys) (s, w) (s', w')"
    using frameK_trans [OF f1 f2] by simp
  moreover have "list_all (\<lambda>x. \<not> is_WritePart x) (x # xs) \<longrightarrow> frameK file_keys (s, w) (s', w')"
    using n1 n2 frameK_trans [of file_keys "(s, w)" "(s1, w1)" file_keys "(s', w')"] by auto
  ultimately show ?case using wf2 d by simp
qed

lemma depth_trace_bound:
  "wf_writer w \<Longrightarrow> \<forall>d \<in> set (depth_trace e msg xs (s, w)). d \<le> 3"
proof (induction xs arbitrary: s w)
  case Nil
  then show ?case by simp
next
  case (Cons x xs)
  show ?case
  proof (cases "run_step e msg x (s, w)")
    case (Inl err)
    then show ?thesis by simp
  next
    case (Inr st')
    obtain s1 w1 where st': "st' = (s1, w1)" by (cases st')
    from run_step_effect [OF Cons.prems] Inr st' have wf1: "wf_writer w1" by simp
    from Cons.IH [OF wf1, of s1] wf1 show ?thesis
      using Inr st' by (simp add: wf_writer_iff)
  qed
qed


lemma body_writes_total: "line_safe enc \<Longrightarrow> \<exists>ws. body_writes e bs enc = Inr ws"
proof -
  assume ls: "line_safe enc"
  have z: "0 \<le> b64_lineLen (newBase64LineWriter [])"
    "b64_lineLen (newBase64LineWriter []) \<le> maxLineLen"
    by (simp_all add: newBase64LineWriter_def maxLineLen_def)
  from base64_Writes_refines [OF z, of "base64_encoder_writes e bs"]
  obtain lw where a: "base64_Writes (newBase64LineWriter []) (base64_encoder_writes e bs) = Inr lw"
    by blast
  from base64_Write_refines [OF z, of bs]
  obtain lw' where b: "base64_Write (newBase64LineWriter []) bs = Inr (lw', int (length bs))"
    by blast
  show ?thesis using ls a b by (auto simp: body_writes_def line_safe_def bindP_def)
qed

lemma addFiles_total:
  "wf_writer w \<Longrightarrow> list_all (\<lambda>f. line_safe (file_encoding f)) files \<Longrightarrow>
     \<exists>st'. addFiles e files isAttachment (s, w) = Inr st'"
proof (induction files arbitrary: s w)
  case Nil
  then show ?case by simp
next
  case (Cons f files)
  from Cons.prems(2) have "line_safe (file_encoding f)" by simp
  from body_writes_total [OF this] obtain ws where
    "body_writes e (Content f) (file_encoding f) = Inr ws" by blast
  from mw_write_total [OF Cons.prems(1) this] obtain s1 w1 where
    a: "mw_write e (file_header e f isAttachment) (Content f) (file_encoding f) (s, w) = Inr (s1, w1)"
    by fastforce
  from mw_write_effect [OF Cons.prems(1) a] have "wf_writer w1" by simp
  from Cons.IH [OF this] Cons.prems(2) show ?case using a by (simp add: bindP_def)
qed

lemma run_step_total:
  assumes wf: "wf_writer w" and ok: "steps_ok (unat (depth w)) (length (bufs s)) msg [x]"
  shows "\<exists>st'. run_step e msg x (s, w) = Inr st'"
proof (cases x)
  case (OpenMultipart mimeType)
  then show ?thesis using ok openMultipart_total [OF wf] by simp
next
  case CloseMultipart
  then show ?thesis using closeMultipart_total [OF wf] by simp
next
  case (WritePart p)
  with ok have b: "body p < length (bufs s)" and ls: "line_safe (encoding msg)" by simp_all
  from body_writes_total [OF ls] obtain ws where
    "body_writes e (bufs s ! body p) (encoding msg) = Inr ws" by blast
  from mw_write_total [OF wf this] show ?thesis
    using WritePart b by (simp add: bindP_def buf_bytes_def)
next
  case (AddFiles files isAttachment)
  then show ?thesis using ok addFiles_total [OF wf] by simp
qed

lemma steps_ok_Cons:
  "steps_ok d n msg (x # xs) = (steps_ok d n msg [x] \<and> steps_ok (depth_after d [x]) n msg xs)"
  by (cases x) simp_all

lemma steps_ok_append:
  "steps_ok d n msg (xs @ ys) = (steps_ok d n msg xs \<and> steps_ok (depth_after d xs) n msg ys)"
  by (induction d n msg xs rule: steps_ok.induct) simp_all

lemma run_steps_total:
  "wf_writer w \<Longrightarrow> steps_ok (unat (depth w)) (length (bufs s)) msg xs \<Longrightarrow>
     \<exists>st'. run_steps e msg xs (s, w) = Inr st'"
proof (induction xs arbitrary: s w)
  case Nil
  then show ?case by simp
next
  case (Cons x xs)
  from Cons.prems(2) have ok1: "steps_ok (unat (depth w)) (length (bufs s)) msg [x]"
    and ok2: "steps_ok (depth_after (unat (depth w)) [x]) (length (bufs s)) msg xs"
    using steps_ok_Cons [of "unat (depth w)" "length (bufs s)" msg x xs] by simp_all
  from run_step_total [OF Cons.prems(1) ok1] obtain s1 w1 where
    a: "run_step e msg x (s, w) = Inr (s1, w1)" by fastforce
  from run_step_effect [OF Cons.prems(1) a] have
    wf1: "wf_writer w1" and d1: "unat (depth w1) = depth_after (unat (depth w)) [x]"
    and f1: "frameK (part_keys \<union> file_keys) (s, w) (s1, w1)"
    by simp_all
  from f1 have "length (bufs s1) = length (bufs s)" by (simp add: frameK_def)
  with ok2 d1 have "steps_ok (unat (depth w1)) (length (bufs s1)) msg xs" by simp
  from Cons.IH [OF wf1 this] show ?case using a by (simp add: bindP_def)
qed

lemma depth_after_parts [simp]: "depth_after d (map WritePart ps) = d"
  by (induction ps) simp_all

lemma steps_ok_parts [simp]:
  "steps_ok d n msg (map WritePart ps) =
     (list_all (\<lambda>p. body p < n) ps \<and> (ps = [] \<or> line_safe (encoding msg)))"
  by (induction ps) auto

lemma filter_multipart_parts [simp]: "filter is_multipart_step (map WritePart ps) = []"
  by (induction ps) simp_all

lemma Export_steps_multipart:
  "filter is_multipart_step (Export_steps msg) =
     map OpenMultipart (wrappers msg) @ replicate (length (wrappers msg)) CloseMultipart"
  by (simp add: Export_steps_def wrappers_def)

lemma Export_steps_depth: "depth_after 0 (Export_steps msg) = 0"
  by (simp add: Export_steps_def depth_after_append)

lemma Export_steps_ok:
  "writable s msg \<Longrightarrow> steps_ok 0 (length (bufs s)) msg (Export_steps msg)"
  by (simp add: Export_steps_def steps_ok_append depth_after_append writable_def)

lemma steps_ok_mono: "steps_ok d n msg xs \<Longrightarrow> n \<le> n' \<Longrightarrow> steps_ok d n' msg xs"
  by (induction d n msg xs rule: steps_ok.induct) auto

lemma newMessageWriter_writer:
  "wf_writer (snd (newMessageWriter e s msg)) \<and> depth (snd (newMessageWriter e s msg)) = 0 \<and>
   mw_header (snd (newMessageWriter e s msg)) = length (maps s) \<and>
   length (bufs s) \<le> length (bufs (fst (newMessageWriter e s msg)))"
  by (simp add: newMessageWriter_def new_map_def getBuffer_def Let_def wf_writer_def
      split: list.splits prod.splits)


text \<open>
  C10. On a writer whose open sections are in place (\<open>wf_writer\<close>: every state that
  \<open>newMessageWriter\<close>, \<open>openMultipart\<close>, \<open>closeMultipart\<close> and the writes reach):
  at depth 0 \<open>closeMultipart\<close> changes nothing; at a depth above 0 it appends the
  terminating boundary marker of the innermost open section to the buffer, leaves the
  header maps alone and lowers the depth by exactly 1.
\<close>

theorem closeMultipart_spec:
  assumes "wf_writer w"
  shows "(depth w = 0 \<longrightarrow> closeMultipart (s, w) = Inr (s, w)) \<and>
         (depth w \<noteq> 0 \<longrightarrow>
            (\<exists>mw s' w'. writers w ! (unat (depth w) - 1) = Some mw \<and>
               closeMultipart (s, w) = Inr (s', w') \<and>
               unat (depth w') + 1 = unat (depth w) \<and>
               bufs s' = (bufs s)[mw_buf w :=
                  bufs s ! mw_buf w @ crlf @ ''--'' @ boundary mw @ ''--'' @ crlf] \<and>
               maps s' = maps s \<and> pool s' = pool s \<and>
               mw_header w' = mw_header w \<and> mw_buf w' = mw_buf w))"
proof (intro conjI impI)
  assume "depth w = 0"
  then show "closeMultipart (s, w) = Inr (s, w)" by (simp add: closeMultipart_def)
next
  assume d: "depth w \<noteq> 0"
  from writer_at_wf [OF assms d] obtain mw where mw: "writer_at w (depth w - 1) = Inr mw"
    by blast
  from writer_at_Inr [OF assms mw] have sl: "writers w ! (unat (depth w) - 1) = Some mw"
    by simp
  have c: "closeMultipart (s, w) =
      Inr (buf_write s (mw_buf w) (mp_Close_bytes mw),
           w\<lparr>writers := (writers w)[unat (depth w - 1) := Some (mw\<lparr>has_part := False\<rparr>)],
             depth := depth w - 1\<rparr>)"
    using d mw by (simp add: closeMultipart_def bindP_def word_gt_0)
  show "\<exists>mw s' w'. writers w ! (unat (depth w) - 1) = Some mw \<and>
               closeMultipart (s, w) = Inr (s', w') \<and>
               unat (depth w') + 1 = unat (depth w) \<and>
               bufs s' = (bufs s)[mw_buf w :=
                  bufs s ! mw_buf w @ crlf @ ''--'' @ boundary mw @ ''--'' @ crlf] \<and>
               maps s' = maps s \<and> pool s' = pool s \<and>
               mw_header w' = mw_header w \<and> mw_buf w' = mw_buf w"
    using sl c unat_depth_pred [OF d]
    by (intro exI [of _ mw]) (simp add: buf_write_def mp_Close_bytes_def)
qed

theorem closeMultipart_spec_witness:
  "wf_writer writer1 \<and>
   closeMultipart (world0, writer1) =
     Inr (world0\<lparr>bufs := [''Hello'' @ crlf @ ''--b--'' @ crlf, ''<b>Hello</b>'']\<rparr>,
          writer1\<lparr>writers := [Some \<lparr>boundary = ''b'', has_part = False\<rparr>, None, None],
                  depth := 0\<rparr>) \<and>
   closeMultipart (world0, writer1\<lparr>depth := 0\<rparr>) = Inr (world0, writer1\<lparr>depth := 0\<rparr>)"
proof -
  have wf: "wf_writer writer1" by (simp add: wf_writer_def writer1_def)
  have wf0: "wf_writer (writer1\<lparr>depth := 0\<rparr>)" by (simp add: wf_writer_def writer1_def)
  from closeMultipart_spec [OF wf0, of world0]
  have a: "closeMultipart (world0, writer1\<lparr>depth := 0\<rparr>) = Inr (world0, writer1\<lparr>depth := 0\<rparr>)"
    by simp
  have b: "closeMultipart (world0, writer1) =
     Inr (world0\<lparr>bufs := [''Hello'' @ crlf @ ''--b--'' @ crlf, ''<b>Hello</b>'']\<rparr>,
          writer1\<lparr>writers := [Some \<lparr>boundary = ''b'', has_part = False\<rparr>, None, None],
                  depth := 0\<rparr>)"
    by (simp add: closeMultipart_def writer1_def world0_def bindP_def writer_at_def
        buf_write_def mp_Close_bytes_def)
  show ?thesis using wf a b by simp
qed

section \<open>Properties of Export\<close>

text \<open>
  C4. The multipart steps of \<open>Export\<close> are the openings of the wrappers the message
  needs, mixed first and alternative last, followed by as many closings, each closing the
  innermost open section; counted from 0 the depth is 0 again after the last step. On
  every run the depth after each step is at most 3, and when \<open>Export\<close> returns the depth
  of the writer is 0. \<open>Export\<close> does return when the part bodies are buffers of the store
  and no body goes through the quoted-printable line writer.
\<close>

theorem Export_multipart_balanced:
  "filter is_multipart_step (Export_steps msg) =
     map OpenMultipart (wrappers msg) @ replicate (length (wrappers msg)) CloseMultipart \<and>
   depth_after 0 (Export_steps msg) = 0 \<and>
   (\<forall>d \<in> set (depth_trace e msg (Export_steps msg) (newMessageWriter e s msg)). d \<le> 3) \<and>
   (\<forall>s' msg' r. Export e s msg = Inr (s', msg', r) \<longrightarrow>
      (\<exists>w. msgWriter msg' = Some w \<and> depth w = 0)) \<and>
   (writable s msg \<longrightarrow> (\<exists>res. Export e s msg = Inr res))"
proof (intro conjI allI impI)
  show "filter is_multipart_step (Export_steps msg) =
     map OpenMultipart (wrappers msg) @ replicate (length (wrappers msg)) CloseMultipart"
    by (rule Export_steps_multipart)
  show "depth_after 0 (Export_steps msg) = 0" by (rule Export_steps_depth)
  obtain s0 w0 where i: "newMessageWriter e s msg = (s0, w0)"
    by (cases "newMessageWriter e s msg")
  from newMessageWriter_writer [of e s msg] i have
    wf0: "wf_writer w0" and d0: "depth w0 = 0" and n0: "length (bufs s) \<le> length (bufs s0)"
    by simp_all
  show "\<forall>d \<in> set (depth_trace e msg (Export_steps msg) (newMessageWriter e s msg)). d \<le> 3"
    unfolding i by (rule depth_trace_bound [OF wf0])
  {
    fix s' msg' r
    assume "Export e s msg = Inr (s', msg', r)"
    then obtain w' where r: "run_steps e msg (Export_steps msg) (s0, w0) = Inr (s', w')"
      and m: "msg' = msg\<lparr>msgWriter := Some w'\<rparr>"
      by (auto simp: Export_def i bindP_def split: sum.splits)
    from run_steps_effect [OF wf0 r] have "unat (depth w') = 0"
      by (simp add: d0 Export_steps_depth)
    then have "depth w' = 0" by (simp add: unat_eq_0)
    then show "\<exists>w. msgWriter msg' = Some w \<and> depth w = 0" using m by simp
  }
  {
    assume "writable s msg"
    from steps_ok_mono [OF Export_steps_ok [OF this] n0]
    have "steps_ok (unat (depth w0)) (length (bufs s0)) msg (Export_steps msg)"
      by (simp add: d0)
    from run_steps_total [OF wf0 this, of e]
    show "\<exists>res. Export e s msg = Inr res"
      by (auto simp: Export_def i bindP_def)
  }
qed


theorem Export_multipart_balanced_witness:
  "writable world0 msg4 \<and> wrappers msg4 = [''mixed'', ''related'', ''alternative''] \<and>
   depth_trace env0 msg4 (Export_steps msg4) (newMessageWriter env0 world0 msg4) =
     [1, 2, 3, 3, 3, 2, 2, 1, 1, 0] \<and>
   (\<exists>res. Export env0 world0 msg4 = Inr res)"
proof -
  have wr: "writable world0 msg4" by code_simp
  have ws: "wrappers msg4 = [''mixed'', ''related'', ''alternative'']" by code_simp
  have tr: "depth_trace env0 msg4 (Export_steps msg4) (newMessageWriter env0 world0 msg4) =
     [1, 2, 3, 3, 3, 2, 2, 1, 1, 0]" by code_simp
  from Export_multipart_balanced [of msg4 env0 world0] wr
  have "\<exists>res. Export env0 world0 msg4 = Inr res" by blast
  then show ?thesis using wr ws tr by blast
qed

section \<open>Properties of Reset\<close>

lemma fold_putBuffer:
  "maps (fold (\<lambda>p s'. putBuffer s' (body p)) ps s) = maps s \<and>
   pool (fold (\<lambda>p s'. putBuffer s' (body p)) ps s) = rev (map body ps) @ pool s \<and>
   rnd (fold (\<lambda>p s'. putBuffer s' (body p)) ps s) = rnd s \<and>
   length (bufs (fold (\<lambda>p s'. putBuffer s' (body p)) ps s)) = length (bufs s)"
  by (induction ps arbitrary: s) (simp_all add: putBuffer_def)

text \<open>
  C9. \<open>Reset\<close> changes exactly five fields of the message: parts, attachments and the
  embedded list become empty, the stored writer becomes \<open>nil\<close>, and the header is a new,
  empty map (the old map object is not touched); charset, encoding and every other field
  are as before. The pool receives the body buffer of every part and, when a writer was
  stored, that writer's buffer.
\<close>

theorem Reset_clears:
  "snd (Reset s msg) =
     msg\<lparr>parts := [], msgWriter := None, header := length (maps s), attachments := [],
         embedded := []\<rparr> \<and>
   charset (snd (Reset s msg)) = charset msg \<and> encoding (snd (Reset s msg)) = encoding msg \<and>
   get_map (fst (Reset s msg)) (header (snd (Reset s msg))) = Map.empty \<and>
   maps (fst (Reset s msg)) = maps s @ [Map.empty] \<and>
   pool (fst (Reset s msg)) =
     (case msgWriter msg of None \<Rightarrow> [] | Some w \<Rightarrow> [mw_buf w]) @
     rev (map body (parts msg)) @ pool s"
  using fold_putBuffer [of "parts msg" s]
  by (simp add: Reset_def Let_def new_map_def get_map_def putBuffer_def
      split: option.splits)

theorem Reset_clears_witness:
  "pool (fst (Reset world0 msg5)) = [0, 1, 0] \<and>
   parts (snd (Reset world0 msg5)) = [] \<and> attachments (snd (Reset world0 msg5)) = [] \<and>
   embedded (snd (Reset world0 msg5)) = [] \<and> msgWriter (snd (Reset world0 msg5)) = None \<and>
   header (snd (Reset world0 msg5)) = 1 \<and>
   charset (snd (Reset world0 msg5)) = ''UTF-8'' \<and>
   encoding (snd (Reset world0 msg5)) = Unencoded"
  using Reset_clears [of world0 msg5]
  by (simp add: msg5_def msg4_def world0_def writer1_def)

section \<open>The header of the exported message and the frame of Export\<close>


















end
